theory Spec2Isabelle
  imports Main "HOL-Library.Word" "HOL-Library.Sublist"
begin

section \<open>The codec (codec/json.go)\<close>

text \<open>
  A frame is a header followed by a body.  The header type is declared in the codec
  package; the program uses its three fields \<open>ServiceMethod\<close>, \<open>Seq\<close> (a
  \<open>uint64\<close>) and \<open>Error\<close> (a string, empty for success).  The fields carry the
  suffix \<open>_h\<close> here because \<open>Call\<close> has fields of the same names.
\<close>

record Header =
  ServiceMethod_h :: string
  Seq_h :: "64 word"
  Error_h :: string

text \<open>
  The bodies the program hands to \<open>Write\<close> are strings (arguments and replies) and
  the empty struct \<open>invalidRequest = struct{}{}\<close>.
\<close>

datatype body = Str string | EmptyStruct

text \<open>
  \<open>JsonCodec\<close> wraps a connection, a JSON decoder reading from it and a JSON encoder
  writing to it through a buffer.  The connection and the JSON library are outside the
  program, so the state of a codec is what the outside world will answer to its calls
  and what the program has done to it so far:
  \<^item> \<open>hdr_in\<close>: the results of the successive \<open>dec.Decode(h)\<close> calls of
    \<open>ReadHeader\<close>, \<open>Inl\<close> the error text, \<open>Inr\<close> the decoded header;
  \<^item> \<open>body_in\<close>: the results of the successive \<open>dec.Decode(body)\<close> calls of
    \<open>ReadBody\<close>;
  \<^item> \<open>wr_res\<close>: the outcomes of the successive \<open>Write\<close> calls, \<open>None\<close> when both
    \<open>Encode\<close> calls succeed, \<open>Some e\<close> when one of them fails with text \<open>e\<close>;
  \<^item> \<open>cl_res\<close>: the results of the successive \<open>conn.Close()\<close> calls;
  \<^item> \<open>wlog\<close>: every \<open>Write\<close> call made so far, with its header, body and outcome;
  \<^item> \<open>closed\<close>: whether \<open>conn.Close()\<close> has been called.
  A read past the end of the input is the error \<open>EOF\<close>; a write or a close beyond the
  scripted outcomes succeeds.
\<close>

record JsonCodec =
  hdr_in :: "(string + Header) list"
  body_in :: "(string + string) list"
  wr_res :: "string option list"
  cl_res :: "string option list"
  wlog :: "(Header \<times> body \<times> string option) list"
  closed :: bool

definition JsonCodec_Close :: "JsonCodec \<Rightarrow> string option \<times> JsonCodec" where
  "JsonCodec_Close c =
     (case cl_res c of
        [] \<Rightarrow> (None, c\<lparr>closed := True\<rparr>)
      | r # rs \<Rightarrow> (r, c\<lparr>cl_res := rs, closed := True\<rparr>))"

definition JsonCodec_ReadHeader :: "JsonCodec \<Rightarrow> (string + Header) \<times> JsonCodec" where
  "JsonCodec_ReadHeader c =
     (case hdr_in c of
        [] \<Rightarrow> (Inl ''EOF'', c)
      | r # rs \<Rightarrow> (r, c\<lparr>hdr_in := rs\<rparr>))"

definition JsonCodec_ReadBody :: "JsonCodec \<Rightarrow> (string + string) \<times> JsonCodec" where
  "JsonCodec_ReadBody c =
     (case body_in c of
        [] \<Rightarrow> (Inl ''EOF'', c)
      | r # rs \<Rightarrow> (r, c\<lparr>body_in := rs\<rparr>))"

text \<open>
  \<open>Write\<close> encodes the header, then the body; its deferred function flushes the buffer
  and, when an error is being returned, closes the codec.
\<close>

definition JsonCodec_Write :: "Header \<Rightarrow> body \<Rightarrow> JsonCodec \<Rightarrow> string option \<times> JsonCodec" where
  "JsonCodec_Write h b c =
     (let r = (case wr_res c of [] \<Rightarrow> None | r # rs \<Rightarrow> r);
          c1 = c\<lparr>wr_res := tl (wr_res c), wlog := wlog c @ [(h, b, r)]\<rparr>
      in case r of
           None \<Rightarrow> (None, c1)
         | Some e \<Rightarrow> (Some e, snd (JsonCodec_Close c1)))"

section \<open>The client (client.go)\<close>

text \<open>
  The values of Go's \<open>error\<close> type that the client stores in a call or returns:
  the package variable \<open>ErrShutdown\<close>, the result of \<open>fmt.Errorf(h.Error)\<close> (kept with
  its format string), the result of \<open>errors.New\<close>, and an error returned by the codec,
  with its text.
\<close>

datatype error = ErrShutdown | Errorf string | ErrorsNew string | CodecError string

text \<open>
  Calls and channels live on the heap and are shared by reference: a \<open>*Call\<close> is held
  by the caller of \<open>Go\<close>, by the pending table and by the channel it is sent on.
  References are natural numbers; \<open>Done\<close> is the reference of the completion channel.
  \<open>Reply\<close> is the content of the caller's reply slot.
\<close>

record Call =
  Seq :: "64 word"
  ServiceMethod :: string
  Args :: body
  Reply :: string
  Error :: "error option"
  Done :: nat

text \<open>
  A channel of calls has a capacity and a history \<open>buf\<close> of the call references sent on
  it, oldest first.  A send on a full channel suspends the sender until a receiver has
  taken an element; the sender then goes on, so the history records every send that
  the program performs.
\<close>

record Chan =
  cap :: nat
  buf :: "nat list"

text \<open>
  The state of a client: the fields of the \<open>Client\<close> struct (\<open>cc\<close>, \<open>header\<close>,
  \<open>seq\<close>, \<open>pending\<close>, \<open>closing\<close>, \<open>shutdown\<close>; \<open>opt\<close> is never read after
  construction), the calls and channels on the heap with their allocation counters, and
  the two kinds of goroutine that work on the client:
  \<^item> \<open>sending\<close> is the mutex of the same name together with the progress of the one
    goroutine that holds it inside \<open>send\<close>;
  \<^item> \<open>receiver\<close> is the progress of the goroutine running \<open>receive\<close>.
  The mutex \<open>mu\<close> guards \<open>registerCall\<close>, \<open>removeCall\<close>, \<open>Close\<close>, \<open>IsAvailable\<close>
  and the body of \<open>terminateCalls\<close>: each of them is one atomic function on the state.
\<close>

datatype send_pc =
  Unlocked
  | Registered nat "64 word"
  | WriteFailed nat "64 word" string

datatype recv_pc =
  ReadingHeader
  | GotHeader Header
  | Removed Header "nat option"
  | Exited string
  | Terminated

record state =
  cc :: JsonCodec
  header :: Header
  seq :: "64 word"
  pending :: "64 word \<rightharpoonup> nat"
  closing :: bool
  shutdown :: bool
  calls :: "nat \<Rightarrow> Call"
  ncalls :: nat
  chans :: "nat \<Rightarrow> Chan"
  nchans :: nat
  sending :: send_pc
  receiver :: recv_pc

text \<open>\<open>call.done()\<close>: send the call on its completion channel.\<close>

definition call_done :: "nat \<Rightarrow> state \<Rightarrow> state" where
  "call_done p s =
     (let d = Done (calls s p)
      in s\<lparr>chans := (chans s)(d := (chans s d)\<lparr>buf := buf (chans s d) @ [p]\<rparr>)\<rparr>)"

text \<open>The assignment \<open>call.Error = err\<close>.\<close>

definition set_Error :: "nat \<Rightarrow> error \<Rightarrow> state \<Rightarrow> state" where
  "set_Error p e s = s\<lparr>calls := (calls s)(p := (calls s p)\<lparr>Error := Some e\<rparr>)\<rparr>"

definition Close :: "state \<Rightarrow> error option \<times> state" where
  "Close s =
     (if shutdown s then (Some ErrShutdown, s)
      else let (r, c) = JsonCodec_Close (cc s)
           in (map_option CodecError r, s\<lparr>cc := c, closing := True\<rparr>))"

definition IsAvailable :: "state \<Rightarrow> bool" where
  "IsAvailable s = (\<not> closing s \<and> \<not> shutdown s)"

text \<open>
  \<open>registerCall\<close> returns the pair of Go's results: the sequence number and the error.
\<close>

definition registerCall :: "nat \<Rightarrow> state \<Rightarrow> (64 word \<times> error option) \<times> state" where
  "registerCall p s =
     (if closing s \<or> shutdown s then ((0, Some ErrShutdown), s)
      else ((seq s, None),
            s\<lparr>calls := (calls s)(p := (calls s p)\<lparr>Seq := seq s\<rparr>),
              pending := (pending s)(seq s \<mapsto> p),
              seq := seq s + 1\<rparr>))"

definition removeCall :: "64 word \<Rightarrow> state \<Rightarrow> nat option \<times> state" where
  "removeCall k s = (pending s k, s\<lparr>pending := (pending s)(k := None)\<rparr>)"

text \<open>
  \<open>terminateCalls\<close> ranges over the pending table.  Go visits the entries of a map
  once each, in an order it does not specify: \<open>order\<close> is the order of the keys taken
  by the run at hand, an enumeration of the keys of the table (\<open>enumerates\<close>).
\<close>

definition enumerates :: "64 word list \<Rightarrow> (64 word \<rightharpoonup> nat) \<Rightarrow> bool" where
  "enumerates order m = (distinct order \<and> set order = dom m)"

fun sweep :: "error \<Rightarrow> 64 word list \<Rightarrow> state \<Rightarrow> state" where
  "sweep err [] s = s"
| "sweep err (k # ks) s =
     sweep err ks
       (case pending s k of
          None \<Rightarrow> s
        | Some p \<Rightarrow> call_done p (set_Error p err s))"

definition terminateCalls :: "error \<Rightarrow> 64 word list \<Rightarrow> state \<Rightarrow> state" where
  "terminateCalls err order s = sweep err order (s\<lparr>shutdown := True\<rparr>)"

text \<open>
  \<open>send\<close> runs under the mutex \<open>sending\<close>.  Its three parts are separated by the
  points where another goroutine can get at the pending table: \<open>send_register\<close> is the
  call of \<open>registerCall\<close> with the delivery of a rejected call, \<open>send_write\<close> fills in
  the client's header and calls \<open>Write\<close>, \<open>send_cleanup\<close> is the body of the
  conditional after a failed write.
\<close>

definition send_register :: "nat \<Rightarrow> state \<Rightarrow> 64 word option \<times> state" where
  "send_register p s =
     (case registerCall p s of
        ((sq, Some err), s1) \<Rightarrow> (None, call_done p (set_Error p err s1))
      | ((sq, None), s1) \<Rightarrow> (Some sq, s1))"

definition send_write :: "nat \<Rightarrow> 64 word \<Rightarrow> state \<Rightarrow> string option \<times> state" where
  "send_write p sq s =
     (let h = (header s)\<lparr>ServiceMethod_h := ServiceMethod (calls s p), Seq_h := sq,
                         Error_h := ''''\<rparr>;
          (r, c) = JsonCodec_Write h (Args (calls s p)) (cc s)
      in (r, s\<lparr>header := h, cc := c\<rparr>))"

definition send_cleanup :: "64 word \<Rightarrow> string \<Rightarrow> state \<Rightarrow> state" where
  "send_cleanup sq e s =
     (case removeCall sq s of
        (None, s1) \<Rightarrow> s1
      | (Some q, s1) \<Rightarrow> call_done q (set_Error q (CodecError e) s1))"

definition send :: "nat \<Rightarrow> state \<Rightarrow> state" where
  "send p s =
     (case send_register p s of
        (None, s1) \<Rightarrow> s1
      | (Some sq, s1) \<Rightarrow>
          (case send_write p sq s1 of
             (None, s2) \<Rightarrow> s2
           | (Some e, s2) \<Rightarrow> send_cleanup sq e s2))"

text \<open>
  \<open>Go\<close>: \<open>done\<close> is \<open>None\<close> for a nil channel, otherwise the reference of the
  caller's channel; \<open>reply\<close> is the content of the caller's reply slot.  \<open>log.Panic\<close>
  is the result \<open>Inl\<close>.  \<open>new_Call\<close> is the allocation of the \<open>Call\<close>, \<open>Go_call\<close>
  the part of \<open>Go\<close> before the call of \<open>send\<close>.
\<close>

datatype panic = Panic string

definition new_Call :: "string \<Rightarrow> body \<Rightarrow> string \<Rightarrow> nat \<Rightarrow> state \<Rightarrow> nat \<times> state" where
  "new_Call m a r d s =
     (ncalls s,
      s\<lparr>calls := (calls s)(ncalls s :=
           \<lparr>Seq = 0, ServiceMethod = m, Args = a, Reply = r, Error = None, Done = d\<rparr>),
        ncalls := ncalls s + 1\<rparr>)"

definition make_chan :: "nat \<Rightarrow> state \<Rightarrow> nat \<times> state" where
  "make_chan n s =
     (nchans s, s\<lparr>chans := (chans s)(nchans s := \<lparr>cap = n, buf = []\<rparr>),
                  nchans := nchans s + 1\<rparr>)"

definition Go_call ::
  "string \<Rightarrow> body \<Rightarrow> string \<Rightarrow> nat option \<Rightarrow> state \<Rightarrow> panic + nat \<times> state" where
  "Go_call m a r dn s =
     (case dn of
        None \<Rightarrow> (let (d, s1) = make_chan 10 s in Inr (new_Call m a r d s1))
      | Some d \<Rightarrow>
          if cap (chans s d) = 0 then Inl (Panic ''rpc client: done channel is unbuffered'')
          else Inr (new_Call m a r d s))"

definition Go ::
  "string \<Rightarrow> body \<Rightarrow> string \<Rightarrow> nat option \<Rightarrow> state \<Rightarrow> panic + nat \<times> state" where
  "Go m a r dn s =
     (case Go_call m a r dn s of
        Inl x \<Rightarrow> Inl x
      | Inr (p, s1) \<Rightarrow> Inr (p, send p s1))"

text \<open>
  The \<open>switch\<close> of \<open>receive\<close>, after the header \<open>h\<close> has been read and
  \<open>removeCall(h.Seq)\<close> has returned \<open>co\<close>; the result is the error of \<open>ReadBody\<close>.
\<close>

definition receive_dispatch :: "Header \<Rightarrow> nat option \<Rightarrow> state \<Rightarrow> string option \<times> state" where
  "receive_dispatch h co s =
     (case co of
        None \<Rightarrow>
          (let (r, c) = JsonCodec_ReadBody (cc s)
           in (case r of Inl e \<Rightarrow> Some e | Inr v \<Rightarrow> None, s\<lparr>cc := c\<rparr>))
      | Some p \<Rightarrow>
          if Error_h h \<noteq> '''' then
            (let s1 = set_Error p (Errorf (Error_h h)) s;
                 (r, c) = JsonCodec_ReadBody (cc s1)
             in (case r of Inl e \<Rightarrow> Some e | Inr v \<Rightarrow> None, call_done p (s1\<lparr>cc := c\<rparr>)))
          else
            (let (r, c) = JsonCodec_ReadBody (cc s);
                 s1 = s\<lparr>cc := c\<rparr>
             in case r of
                  Inl e \<Rightarrow>
                    (Some e, call_done p (set_Error p (ErrorsNew (''read body '' @ e)) s1))
                | Inr v \<Rightarrow>
                    (None, call_done p (s1\<lparr>calls := (calls s1)(p := (calls s1 p)\<lparr>Reply := v\<rparr>)\<rparr>))))"

text \<open>
  \<open>newClientCodec\<close>: sequence numbers start at 1, the pending table is empty, both
  flags are false, and the receiver goroutine is started.  No call and no channel has
  been allocated yet.
\<close>

definition newClientCodec :: "JsonCodec \<Rightarrow> state" where
  "newClientCodec c =
     \<lparr>cc = c,
      header = \<lparr>ServiceMethod_h = '''', Seq_h = 0, Error_h = ''''\<rparr>,
      seq = 1, pending = Map.empty, closing = False, shutdown = False,
      calls = (\<lambda>_. \<lparr>Seq = 0, ServiceMethod = '''', Args = EmptyStruct, Reply = '''',
                     Error = None, Done = 0\<rparr>),
      ncalls = 0,
      chans = (\<lambda>_. \<lparr>cap = 0, buf = []\<rparr>),
      nchans = 0,
      sending = Unlocked, receiver = ReadingHeader\<rparr>"

subsection \<open>The goroutines of a client\<close>

text \<open>
  One step of one goroutine.  A step is \<open>None\<close> when the goroutine is not at that point
  or has to wait for the mutex \<open>sending\<close>.
  \<^item> \<open>MakeChan n\<close>: a caller makes a channel of capacity \<open>n\<close>.
  \<^item> \<open>GoRegister\<close>: a caller runs \<open>Go\<close> up to the return of \<open>registerCall\<close> inside
    \<open>send\<close>; a rejected call is delivered and \<open>send\<close> returns.  A \<open>Go\<close> that panics
    leaves the client as it was.
  \<^item> \<open>SendWrite\<close>, \<open>SendCleanup\<close>: the rest of \<open>send\<close>.
  \<^item> \<open>CallClose\<close>: a caller runs \<open>Close\<close>.
  \<^item> \<open>RecvHeader\<close>, \<open>RecvRemove\<close>, \<open>RecvBody\<close>: one round of the loop of \<open>receive\<close>.
  \<^item> \<open>RecvTerminate order\<close>: \<open>terminateCalls\<close> after the loop, once \<open>sending\<close> is free.
\<close>

datatype action =
  MakeChan nat
  | GoRegister string body string "nat option"
  | SendWrite
  | SendCleanup
  | CallClose
  | RecvHeader
  | RecvRemove
  | RecvBody
  | RecvTerminate "64 word list"

fun step :: "action \<Rightarrow> state \<Rightarrow> state option" where
  "step (MakeChan n) s = Some (snd (make_chan n s))"
| "step (GoRegister m a r dn) s =
     (if (case dn of None \<Rightarrow> False | Some d \<Rightarrow> nchans s \<le> d) then None
      else case Go_call m a r dn s of
             Inl x \<Rightarrow> Some s
           | Inr (p, s1) \<Rightarrow>
               if sending s \<noteq> Unlocked then None
               else (case send_register p s1 of
                       (None, s2) \<Rightarrow> Some s2
                     | (Some sq, s2) \<Rightarrow> Some (s2\<lparr>sending := Registered p sq\<rparr>)))"
| "step SendWrite s =
     (case sending s of
        Registered p sq \<Rightarrow>
          (case send_write p sq s of
             (None, s1) \<Rightarrow> Some (s1\<lparr>sending := Unlocked\<rparr>)
           | (Some e, s1) \<Rightarrow> Some (s1\<lparr>sending := WriteFailed p sq e\<rparr>))
      | _ \<Rightarrow> None)"
| "step SendCleanup s =
     (case sending s of
        WriteFailed p sq e \<Rightarrow> Some ((send_cleanup sq e s)\<lparr>sending := Unlocked\<rparr>)
      | _ \<Rightarrow> None)"
| "step CallClose s = Some (snd (Close s))"
| "step RecvHeader s =
     (case receiver s of
        ReadingHeader \<Rightarrow>
          (case JsonCodec_ReadHeader (cc s) of
             (Inl e, c) \<Rightarrow> Some (s\<lparr>cc := c, receiver := Exited e\<rparr>)
           | (Inr h, c) \<Rightarrow> Some (s\<lparr>cc := c, receiver := GotHeader h\<rparr>))
      | _ \<Rightarrow> None)"
| "step RecvRemove s =
     (case receiver s of
        GotHeader h \<Rightarrow>
          (case removeCall (Seq_h h) s of (co, s1) \<Rightarrow> Some (s1\<lparr>receiver := Removed h co\<rparr>))
      | _ \<Rightarrow> None)"
| "step RecvBody s =
     (case receiver s of
        Removed h co \<Rightarrow>
          (case receive_dispatch h co s of
             (None, s1) \<Rightarrow> Some (s1\<lparr>receiver := ReadingHeader\<rparr>)
           | (Some e, s1) \<Rightarrow> Some (s1\<lparr>receiver := Exited e\<rparr>))
      | _ \<Rightarrow> None)"
| "step (RecvTerminate order) s =
     (case receiver s of
        Exited e \<Rightarrow>
          if sending s = Unlocked \<and> enumerates order (pending s)
          then Some ((terminateCalls (CodecError e) order s)\<lparr>receiver := Terminated\<rparr>)
          else None
      | _ \<Rightarrow> None)"

fun exec :: "action list \<Rightarrow> state \<Rightarrow> state option" where
  "exec [] s = Some s"
| "exec (a # as) s = (case step a s of None \<Rightarrow> None | Some s1 \<Rightarrow> exec as s1)"

text \<open>The number of times call \<open>p\<close> has been sent on its completion channel.\<close>

definition deliveries :: "state \<Rightarrow> nat \<Rightarrow> nat" where
  "deliveries s p = count_list (buf (chans s (Done (calls s p)))) p"

text \<open>
  \<open>receive\<close> as one function, for a receiver that no other goroutine interferes
  with: the loop up to its first read error, then \<open>terminateCalls\<close> with that
  error.  \<open>receive_loop\<close> returns the text of the error that ended the loop.
\<close>

function receive_loop :: "state \<Rightarrow> string \<times> state" where
  "receive_loop s =
     (case JsonCodec_ReadHeader (cc s) of
        (Inl e, c) \<Rightarrow> (e, s\<lparr>cc := c\<rparr>)
      | (Inr h, c) \<Rightarrow>
          (case removeCall (Seq_h h) (s\<lparr>cc := c\<rparr>) of
             (co, s1) \<Rightarrow>
               (case receive_dispatch h co s1 of
                  (Some e, s2) \<Rightarrow> (e, s2)
                | (None, s2) \<Rightarrow> receive_loop s2)))"
  by pat_completeness auto
termination
  by (relation "measure (\<lambda>s. length (hdr_in (cc s)))")
    (auto simp: JsonCodec_ReadHeader_def JsonCodec_ReadBody_def removeCall_def
      receive_dispatch_def call_done_def set_Error_def Let_def
      split: list.splits option.splits prod.splits sum.splits if_splits)

definition receive :: "64 word list \<Rightarrow> state \<Rightarrow> state" where
  "receive order s =
     (case receive_loop s of (e, s1) \<Rightarrow> terminateCalls (CodecError e) order s1)"

section \<open>The server (server.go)\<close>

definition MagicNumber :: int where
  "MagicNumber = 0xffff7777"

text \<open>
  \<open>Option\<close>, the handshake record.  The codec type is a string; which types have a
  constructor is decided by the table \<open>NewCodecFuncMap\<close> of the codec package, a
  parameter \<open>funcs\<close> of \<open>ServeConn\<close> here.  A connection and the codec built on it
  are the same record: \<open>NewJsonCodec\<close> adds a decoder, an encoder and a buffer on top of
  the connection.
\<close>

record Option_rec =
  MagicNumber_opt :: int
  CodecType :: string

definition NewJsonCodec :: "JsonCodec \<Rightarrow> JsonCodec" where
  "NewJsonCodec conn = conn"

text \<open>
  A request: its header, the decoded argument (a string) and the reply.
\<close>

record request =
  req_h :: Header
  argv :: string
  replyv :: string

text \<open>\<open>%d\<close> of an unsigned number: its decimal digits, most significant first.\<close>

definition digit :: "nat \<Rightarrow> char" where
  "digit d = ''0123456789'' ! d"

fun decimal :: "nat \<Rightarrow> string" where
  "decimal n = (if n < 10 then [digit n] else decimal (n div 10) @ [digit (n mod 10)])"

declare decimal.simps [simp del]

text \<open>The number that a string of decimal digits denotes.\<close>

definition dec_value :: "string \<Rightarrow> nat" where
  "dec_value cs = foldl (\<lambda>a c. 10 * a + (of_char c - 48)) 0 cs"

definition Sprintf_rpc_resp :: "64 word \<Rightarrow> string" where
  "Sprintf_rpc_resp n = ''rpc resp '' @ decimal (unat n)"

text \<open>
  The main goroutine of a connection is in the loop of \<open>serveCodec\<close> (\<open>Loop\<close>), is
  about to answer an invalid request (\<open>Invalid\<close>: inside \<open>sendResponse\<close> before the
  mutex is taken, \<open>InvalidLocked\<close>: holding it), is at \<open>wg.Wait()\<close> (\<open>Waiting\<close>), or
  has left \<open>ServeConn\<close> (\<open>Returned\<close>).  \<open>handlers\<close> are the goroutines started by
  \<open>go server.handleRequest\<close> that have not yet called \<open>wg.Done\<close>, each with its
  request and whether it holds the mutex; the counter of the wait group is their
  number.  \<open>slock\<close> is the mutex \<open>sending\<close> of \<open>serveCodec\<close>.
\<close>

datatype serve_pc = Loop | Invalid Header | InvalidLocked Header | Waiting | Returned

record server =
  scc :: JsonCodec
  slock :: bool
  serving :: serve_pc
  handlers :: "(request \<times> bool) list"

text \<open>
  \<open>readRequestHeader\<close> and \<open>readRequest\<close> return the pair of Go's results, a
  pointer that may be nil and an error.
\<close>

definition readRequestHeader :: "JsonCodec \<Rightarrow> (Header option \<times> string option) \<times> JsonCodec" where
  "readRequestHeader c =
     (case JsonCodec_ReadHeader c of
        (Inl e, c1) \<Rightarrow> ((None, Some e), c1)
      | (Inr h, c1) \<Rightarrow> ((Some h, None), c1))"

definition readRequest :: "JsonCodec \<Rightarrow> (request option \<times> string option) \<times> JsonCodec" where
  "readRequest c =
     (case readRequestHeader c of
        ((_, Some e), c1) \<Rightarrow> ((None, Some e), c1)
      | ((None, None), c1) \<Rightarrow> ((None, None), c1)
      | ((Some h, None), c1) \<Rightarrow>
          (case JsonCodec_ReadBody c1 of
             (Inl e, c2) \<Rightarrow> ((Some \<lparr>req_h = h, argv = '''', replyv = ''''\<rparr>, Some e), c2)
           | (Inr v, c2) \<Rightarrow> ((Some \<lparr>req_h = h, argv = v, replyv = ''''\<rparr>, None), c2)))"

text \<open>
  \<open>sendResponse\<close> between \<open>sending.Lock()\<close> and the deferred \<open>sending.Unlock()\<close>:
  the error of \<open>Write\<close> is logged and dropped.
\<close>

definition sendResponse :: "Header \<Rightarrow> body \<Rightarrow> JsonCodec \<Rightarrow> JsonCodec" where
  "sendResponse h b c = snd (JsonCodec_Write h b c)"

text \<open>The assignment to \<open>req.replyv\<close> in \<open>handleRequest\<close>.\<close>

definition handleRequest_reply :: "request \<Rightarrow> request" where
  "handleRequest_reply req = req\<lparr>replyv := Sprintf_rpc_resp (Seq_h (req_h req))\<rparr>"

text \<open>
  \<open>serveCodec\<close> starts with a fresh mutex and a fresh wait group and enters its loop;
  what it does from there is the work of the goroutines below.
\<close>

definition serveCodec :: "JsonCodec \<Rightarrow> server" where
  "serveCodec c = \<lparr>scc = c, slock = False, serving = Loop, handlers = []\<rparr>"

text \<open>
  \<open>ServeConn\<close> up to the first round of the loop of \<open>serveCodec\<close>.  \<open>opt\<close> is the
  result of decoding the handshake from the connection.  A connection that is turned
  away is closed by the deferred \<open>conn.Close()\<close> and \<open>ServeConn\<close> has returned.
\<close>

definition ServeConn ::
  "(string \<rightharpoonup> (JsonCodec \<Rightarrow> JsonCodec)) \<Rightarrow> string + Option_rec \<Rightarrow> JsonCodec \<Rightarrow> server" where
  "ServeConn funcs opt conn =
     (let abort = \<lparr>scc = snd (JsonCodec_Close conn), slock = False, serving = Returned,
                   handlers = []\<rparr>
      in case opt of
           Inl e \<Rightarrow> abort
         | Inr o' \<Rightarrow>
             if MagicNumber_opt o' \<noteq> MagicNumber then abort
             else (case funcs (CodecType o') of
                     None \<Rightarrow> abort
                   | Some f \<Rightarrow> serveCodec (f conn)))"

text \<open>
  One step of one goroutine of a connection.
  \<^item> \<open>ServerRead\<close>: one round of the loop of \<open>serveCodec\<close> up to the \<open>break\<close>, the
    call of \<open>sendResponse\<close> or the \<open>go\<close> statement.
  \<^item> \<open>ServerLock\<close>, \<open>ServerWrite\<close>: \<open>sendResponse\<close> for an invalid request.
  \<^item> \<open>ServerClose\<close>: \<open>wg.Wait()\<close> returns when no handler is left; then
    \<open>cc.Close()\<close>, and the deferred \<open>conn.Close()\<close> of \<open>ServeConn\<close>.
  \<^item> \<open>HandlerLock i\<close>: handler \<open>i\<close> runs \<open>handleRequest\<close> up to \<open>sending.Lock()\<close>
    inside \<open>sendResponse\<close>.
  \<^item> \<open>HandlerWrite i\<close>: handler \<open>i\<close> writes its response, releases the mutex and
    calls \<open>wg.Done\<close>.
\<close>

datatype server_action =
  ServerRead | ServerLock | ServerWrite | ServerClose | HandlerLock nat | HandlerWrite nat

fun server_step :: "server_action \<Rightarrow> server \<Rightarrow> server option" where
  "server_step ServerRead s =
     (case serving s of
        Loop \<Rightarrow>
          (case readRequest (scc s) of
             ((None, _), c) \<Rightarrow> Some (s\<lparr>scc := c, serving := Waiting\<rparr>)
           | ((Some req, Some e), c) \<Rightarrow>
               Some (s\<lparr>scc := c, serving := Invalid ((req_h req)\<lparr>Error_h := e\<rparr>)\<rparr>)
           | ((Some req, None), c) \<Rightarrow>
               Some (s\<lparr>scc := c, handlers := handlers s @ [(req, False)]\<rparr>))
      | _ \<Rightarrow> None)"
| "server_step ServerLock s =
     (case serving s of
        Invalid h \<Rightarrow> if slock s then None else Some (s\<lparr>slock := True, serving := InvalidLocked h\<rparr>)
      | _ \<Rightarrow> None)"
| "server_step ServerWrite s =
     (case serving s of
        InvalidLocked h \<Rightarrow>
          Some (s\<lparr>scc := sendResponse h EmptyStruct (scc s), slock := False, serving := Loop\<rparr>)
      | _ \<Rightarrow> None)"
| "server_step ServerClose s =
     (case serving s of
        Waiting \<Rightarrow>
          if handlers s = []
          then Some (s\<lparr>scc := snd (JsonCodec_Close (snd (JsonCodec_Close (scc s)))),
                       serving := Returned\<rparr>)
          else None
      | _ \<Rightarrow> None)"
| "server_step (HandlerLock i) s =
     (if i < length (handlers s) \<and> \<not> snd (handlers s ! i) \<and> \<not> slock s
      then Some (s\<lparr>slock := True,
                   handlers := (handlers s)[i := (handleRequest_reply (fst (handlers s ! i)), True)]\<rparr>)
      else None)"
| "server_step (HandlerWrite i) s =
     (if i < length (handlers s) \<and> snd (handlers s ! i)
      then (let req = fst (handlers s ! i)
            in Some (s\<lparr>scc := sendResponse (req_h req) (Str (replyv req)) (scc s),
                       slock := False,
                       handlers := take i (handlers s) @ drop (Suc i) (handlers s)\<rparr>))
      else None)"

fun server_exec :: "server_action list \<Rightarrow> server \<Rightarrow> server option" where
  "server_exec [] s = Some s"
| "server_exec (a # as) s =
     (case server_step a s of None \<Rightarrow> None | Some s1 \<Rightarrow> server_exec as s1)"



definition write_failed :: "JsonCodec \<Rightarrow> bool" where
  "write_failed c = (\<exists>w \<in> set (wlog c). snd (snd w) \<noteq> None)"


text \<open>
  What holds of a client in every state it can reach, whatever the order in which its
  goroutines run:
  \<^item> the pending table holds calls that have been made, each under one key;
  \<^item> the call that the receiver has taken from the table is no longer in it;
  \<^item> before the sweep, a call in the table or in the receiver's hands has not been
    delivered;
  \<^item> no call has been delivered twice, and a call is only ever sent on its own
    completion channel;
  \<^item> \<open>shutdown\<close> is set exactly when the receiver has finished \<open>terminateCalls\<close>,
    and never while a goroutine is inside \<open>send\<close> past \<open>registerCall\<close>;
  \<^item> channels that have not been made are empty, and the completion channel of a call
    that has been made is a channel that has been made.
\<close>

definition safe :: "state \<Rightarrow> bool" where
  "safe s \<longleftrightarrow>
     (\<forall>k p. pending s k = Some p \<longrightarrow> p < ncalls s) \<and>
     (\<forall>k k' p. pending s k = Some p \<and> pending s k' = Some p \<longrightarrow> k = k') \<and>
     (\<forall>h p. receiver s = Removed h (Some p) \<longrightarrow> p < ncalls s \<and> (\<forall>k. pending s k \<noteq> Some p)) \<and>
     (\<not> shutdown s \<longrightarrow>
        (\<forall>k p. pending s k = Some p \<longrightarrow> deliveries s p = 0) \<and>
        (\<forall>h p. receiver s = Removed h (Some p) \<longrightarrow> deliveries s p = 0)) \<and>
     (\<forall>p. deliveries s p \<le> 1) \<and>
     (\<forall>c q. q \<in> set (buf (chans s c)) \<longrightarrow> q < ncalls s \<and> c = Done (calls s q)) \<and>
     (shutdown s \<longleftrightarrow> receiver s = Terminated) \<and>
     (sending s \<noteq> Unlocked \<longrightarrow> \<not> shutdown s) \<and>
     (\<forall>c. nchans s \<le> c \<longrightarrow> buf (chans s c) = []) \<and>
     (\<forall>p. p < ncalls s \<longrightarrow> Done (calls s p) < nchans s)"

section \<open>Connections used as examples\<close>

text \<open>
  \<open>quiet_conn\<close>: nothing arrives, every write and close succeeds.
  \<open>twice_closed_conn\<close>: the same, except that the connection answers a second
  \<open>Close\<close> with an error, as a TCP connection does.
\<close>

definition quiet_conn :: JsonCodec where
  "quiet_conn = \<lparr>hdr_in = [], body_in = [], wr_res = [], cl_res = [], wlog = [],
                 closed = False\<rparr>"

definition twice_closed_conn :: JsonCodec where
  "twice_closed_conn = quiet_conn\<lparr>cl_res := [None, Some ''use of closed network connection'']\<rparr>"

text \<open>
  \<open>json_funcs\<close>: a table \<open>NewCodecFuncMap\<close> with the JSON codec as its one entry.
  \<open>foo_conn\<close>: one request arrives, \<open>Foo.Sum\<close> with sequence number 3 and
  argument \<open>req-3\<close>.
\<close>

definition json_funcs :: "string \<rightharpoonup> (JsonCodec \<Rightarrow> JsonCodec)" where
  "json_funcs = [''application/json'' \<mapsto> NewJsonCodec]"


definition broken_pipe_conn :: JsonCodec where
  "broken_pipe_conn =
     quiet_conn\<lparr>hdr_in := [Inr \<lparr>ServiceMethod_h = ''Foo.Sum'', Seq_h = 1, Error_h = ''''\<rparr>,
                          Inr \<lparr>ServiceMethod_h = ''Foo.Sum'', Seq_h = 2, Error_h = ''''\<rparr>],
                body_in := [Inr ''req-1'', Inr ''req-2''],
                wr_res := [Some ''write: broken pipe'']\<rparr>"

text \<open>
  \<open>closed_before_write\<close>: the state of the connection \<open>broken_pipe_conn\<close> after
  the first handler's \<open>Write\<close> has failed and the second handler has taken the mutex.
\<close>

definition closed_before_write :: server where
  "closed_before_write =
     \<lparr>scc = \<lparr>hdr_in = [], body_in = [], wr_res = [], cl_res = [],
              wlog = [(\<lparr>ServiceMethod_h = ''Foo.Sum'', Seq_h = 1, Error_h = ''''\<rparr>,
                       Str ''rpc resp 1'', Some ''write: broken pipe'')],
              closed = True\<rparr>,
      slock = True, serving = Waiting,
      handlers = [(\<lparr>req_h = \<lparr>ServiceMethod_h = ''Foo.Sum'', Seq_h = 2, Error_h = ''''\<rparr>,
                    argv = ''req-2'', replyv = ''rpc resp 2''\<rparr>, True)]\<rparr>"

definition foo_conn :: JsonCodec where
  "foo_conn = quiet_conn\<lparr>hdr_in := [Inr \<lparr>ServiceMethod_h = ''Foo.Sum'', Seq_h = 3, Error_h = ''''\<rparr>],
                         body_in := [Inr ''req-3'']\<rparr>"


text \<open>
  \<open>one_pending\<close>: the client on \<open>quiet_conn\<close> after one call \<open>Foo.Sum\<close> has been
  registered and written and the receiver has read the end of the input.
\<close>

definition one_pending :: state where
  "one_pending =
     \<lparr>cc = quiet_conn\<lparr>wlog := [(\<lparr>ServiceMethod_h = ''Foo.Sum'', Seq_h = 1, Error_h = ''''\<rparr>,
                                 Str ''req-1'', None)]\<rparr>,
      header = \<lparr>ServiceMethod_h = ''Foo.Sum'', Seq_h = 1, Error_h = ''''\<rparr>,
      seq = 2, pending = [1 \<mapsto> 0], closing = False, shutdown = False,
      calls = (\<lambda>_. \<lparr>Seq = 0, ServiceMethod = '''', Args = EmptyStruct, Reply = '''',
                     Error = None, Done = 0\<rparr>)
              (0 := \<lparr>Seq = 1, ServiceMethod = ''Foo.Sum'', Args = Str ''req-1'', Reply = '''',
                      Error = None, Done = 0\<rparr>),
      ncalls = 1,
      chans = (\<lambda>_. \<lparr>cap = 0, buf = []\<rparr>)(0 := \<lparr>cap = 10, buf = []\<rparr>),
      nchans = 1,
      sending = Unlocked, receiver = Exited ''EOF''\<rparr>"

text \<open>
  The call \<open>p\<close> that a goroutine inside \<open>send\<close> has registered under \<open>sq\<close> is
  still in the pending table under \<open>sq\<close>, or the receiver has taken it from there:
  then nothing is in the table under \<open>sq\<close>, and the call has been delivered or is
  in the receiver's hands.
\<close>

definition in_flight :: "state \<Rightarrow> bool" where
  "in_flight s \<longleftrightarrow>
     (\<forall>p sq. (sending s = Registered p sq \<or> (\<exists>e. sending s = WriteFailed p sq e)) \<longrightarrow>
        pending s sq = Some p \<or>
        (pending s sq = None \<and>
         (deliveries s p = 1 \<or> (\<exists>h. receiver s = Removed h (Some p)))))"

text \<open>
  \<open>race_conn\<close>: the first \<open>Write\<close> fails, and a response with sequence number 1
  arrives all the same.
\<close>

definition race_conn :: JsonCodec where
  "race_conn =
     quiet_conn\<lparr>hdr_in := [Inr \<lparr>ServiceMethod_h = ''Foo.Sum'', Seq_h = 1, Error_h = ''''\<rparr>],
                body_in := [Inr ''rpc resp 1''],
                wr_res := [Some ''write: broken pipe'']\<rparr>"

text \<open>
  The sequence numbers that a run assigns.  \<open>registered a s\<close> is the sequence number
  that \<open>registerCall\<close> returns with a nil error to the call of step \<open>a\<close>, with the
  reference of that call; \<open>assigned sched s\<close> lists them for the run \<open>sched\<close> from
  \<open>s\<close>, in the order of the registrations.
\<close>

definition registered :: "action \<Rightarrow> state \<Rightarrow> (64 word \<times> nat) option" where
  "registered a s =
     (case a of
        GoRegister m ar r dn \<Rightarrow>
          (case Go_call m ar r dn s of
             Inl x \<Rightarrow> None
           | Inr (p, s1) \<Rightarrow>
               (case fst (registerCall p s1) of
                  (sq, None) \<Rightarrow> Some (sq, p)
                | (sq, Some err) \<Rightarrow> None))
      | _ \<Rightarrow> None)"

fun assigned :: "action list \<Rightarrow> state \<Rightarrow> (64 word \<times> nat) list" where
  "assigned [] s = []"
| "assigned (a # as) s =
     (case step a s of
        None \<Rightarrow> []
      | Some s1 \<Rightarrow> (case registered a s of None \<Rightarrow> [] | Some x \<Rightarrow> [x]) @ assigned as s1)"

text \<open>
  \<open>rounds n\<close>: \<open>n\<close> calls of \<open>Go\<close> with a nil channel, one after the other, each
  running \<open>send\<close> to its end before the next begins.
\<close>

definition rounds :: "nat \<Rightarrow> action list" where
  "rounds n = concat (replicate n [GoRegister ''Foo.Sum'' (Str ''req'') '''' None, SendWrite])"

text \<open>
  A client is \<open>ready\<close> for a round when no goroutine is inside \<open>send\<close>, neither flag
  is set and every write to come succeeds.
\<close>

definition ready :: "state \<Rightarrow> bool" where
  "ready s \<longleftrightarrow> sending s = Unlocked \<and> \<not> closing s \<and> \<not> shutdown s \<and> wr_res (cc s) = []"

text \<open>
  Every call that has been made is \<open>accounted\<close> for: it has been delivered once, or,
  before the sweep, it is in the pending table or in the receiver's hands.  The
  counter \<open>seq\<close> is \<open>fresh_seq\<close>: it has not been incremented more often than calls
  have been made, and every key of the pending table is below it.
\<close>

definition accounted :: "state \<Rightarrow> bool" where
  "accounted s \<longleftrightarrow>
     (\<forall>p < ncalls s. deliveries s p = 1 \<or>
        (\<not> shutdown s \<and>
         ((\<exists>k. pending s k = Some p) \<or> (\<exists>h. receiver s = Removed h (Some p)))))"

definition fresh_seq :: "state \<Rightarrow> bool" where
  "fresh_seq s \<longleftrightarrow>
     unat (seq s) \<le> ncalls s + 1 \<and> (\<forall>k p. pending s k = Some p \<longrightarrow> unat k < unat (seq s))"

text \<open>
  A bound on the number of steps that the receiver has left before it leaves its loop:
  three for every header that is still to be read, and what is left of the round at
  hand.
\<close>

definition recv_steps :: "state \<Rightarrow> nat" where
  "recv_steps s =
     3 * length (hdr_in (cc s)) +
     (case receiver s of
        ReadingHeader \<Rightarrow> 2 | GotHeader h \<Rightarrow> 4 | Removed h co \<Rightarrow> 3 | Exited e \<Rightarrow> 1
      | Terminated \<Rightarrow> 0)"

text \<open>
  \<open>crossed_conn\<close>: the responses to two calls arrive in the reverse order.
  \<open>crossed_run\<close>: two calls are made and written, the receiver reads both responses
  and then the end of the input, and sweeps the empty pending table.
\<close>

definition crossed_conn :: JsonCodec where
  "crossed_conn =
     quiet_conn\<lparr>hdr_in := [Inr \<lparr>ServiceMethod_h = ''Foo.Sum'', Seq_h = 2, Error_h = ''''\<rparr>,
                          Inr \<lparr>ServiceMethod_h = ''Foo.Sum'', Seq_h = 1, Error_h = ''''\<rparr>],
                body_in := [Inr ''rpc resp 2'', Inr ''rpc resp 1'']\<rparr>"

definition crossed_run :: "action list" where
  "crossed_run =
     [GoRegister ''Foo.Sum'' (Str ''req-1'') '''' None, SendWrite,
      GoRegister ''Foo.Sum'' (Str ''req-2'') '''' None, SendWrite,
      RecvHeader, RecvRemove, RecvBody, RecvHeader, RecvRemove, RecvBody,
      RecvHeader, RecvTerminate []]"

text \<open>
  \<open>wrap_run\<close>: one call, then \<open>2 ^ 64\<close> more, none of them answered; then the
  receiver reads the end of the input and sweeps the pending table, which by then
  has an entry under every sequence number, in the order \<open>wrap_order\<close>.
\<close>

definition wrap_order :: "64 word list" where
  "wrap_order = map of_nat [0..<2 ^ 64]"

definition wrap_run :: "action list" where
  "wrap_run = rounds 1 @ rounds (2 ^ 64) @ [RecvHeader, RecvTerminate wrap_order]"



section \<open>Fields left alone by the parts of the client\<close>

lemma call_done_fields [simp]:
  "cc (call_done p s) = cc s"
  "header (call_done p s) = header s"
  "seq (call_done p s) = seq s"
  "pending (call_done p s) = pending s"
  "closing (call_done p s) = closing s"
  "shutdown (call_done p s) = shutdown s"
  "calls (call_done p s) = calls s"
  "ncalls (call_done p s) = ncalls s"
  "nchans (call_done p s) = nchans s"
  "sending (call_done p s) = sending s"
  "receiver (call_done p s) = receiver s"
  by (simp_all add: call_done_def Let_def)

lemma call_done_chans:
  "chans (call_done p s) c =
     (if c = Done (calls s p) then (chans s c)\<lparr>buf := buf (chans s c) @ [p]\<rparr> else chans s c)"
  by (simp add: call_done_def Let_def)

lemma call_done_cap [simp]: "cap (chans (call_done p s) c) = cap (chans s c)"
  by (simp add: call_done_chans)

lemma set_Error_fields [simp]:
  "cc (set_Error p e s) = cc s"
  "header (set_Error p e s) = header s"
  "seq (set_Error p e s) = seq s"
  "pending (set_Error p e s) = pending s"
  "closing (set_Error p e s) = closing s"
  "shutdown (set_Error p e s) = shutdown s"
  "chans (set_Error p e s) = chans s"
  "ncalls (set_Error p e s) = ncalls s"
  "nchans (set_Error p e s) = nchans s"
  "sending (set_Error p e s) = sending s"
  "receiver (set_Error p e s) = receiver s"
  by (simp_all add: set_Error_def)

lemma set_Error_calls:
  "calls (set_Error p e s) q = (if q = p then (calls s p)\<lparr>Error := Some e\<rparr> else calls s q)"
  by (simp add: set_Error_def)

lemma set_Error_Done [simp]: "Done (calls (set_Error p e s) q) = Done (calls s q)"
  by (simp add: set_Error_calls)

lemma sweep_fields [simp]:
  "cc (sweep err ks s) = cc s"
  "header (sweep err ks s) = header s"
  "seq (sweep err ks s) = seq s"
  "pending (sweep err ks s) = pending s"
  "closing (sweep err ks s) = closing s"
  "shutdown (sweep err ks s) = shutdown s"
  "ncalls (sweep err ks s) = ncalls s"
  "nchans (sweep err ks s) = nchans s"
  "sending (sweep err ks s) = sending s"
  "receiver (sweep err ks s) = receiver s"
  by (induction ks arbitrary: s; simp split: option.splits)+

lemmas client_defs =
  Close_def JsonCodec_Close_def registerCall_def removeCall_def terminateCalls_def
  send_register_def send_write_def send_cleanup_def JsonCodec_Write_def
  JsonCodec_ReadHeader_def JsonCodec_ReadBody_def receive_dispatch_def
  Go_call_def make_chan_def new_Call_def Let_def

lemmas client_splits =
  if_splits option.splits prod.splits sum.splits list.splits send_pc.splits recv_pc.splits

lemma exec_append:
  "exec (xs @ ys) s = (case exec xs s of None \<Rightarrow> None | Some s1 \<Rightarrow> exec ys s1)"
  by (induction xs arbitrary: s) (auto split: option.splits)

lemma step_flags:
  "step a s = Some s' \<Longrightarrow> (closing s \<longrightarrow> closing s') \<and> (shutdown s \<longrightarrow> shutdown s')"
  by (cases a) (auto simp: client_defs split: client_splits)

lemma exec_flags:
  "exec sched s = Some s' \<Longrightarrow> (closing s \<longrightarrow> closing s') \<and> (shutdown s \<longrightarrow> shutdown s')"
proof (induction sched arbitrary: s)
  case Nil
  then show ?case by simp
next
  case (Cons a sched)
  then obtain s1 where 1: "step a s = Some s1" and 2: "exec sched s1 = Some s'"
    by (auto split: option.splits)
  from step_flags [OF 1] Cons.IH [OF 2] show ?case by blast
qed

lemma send_Done: "Done (calls (send p s) q) = Done (calls s q)"
  by (simp add: send_def client_defs split: prod.splits option.splits)

lemma send_cap: "cap (chans (send p s) c) = cap (chans s c)"
  by (simp add: send_def client_defs split: prod.splits option.splits)

lemma send_nchans: "nchans (send p s) = nchans s"
  by (simp add: send_def client_defs split: prod.splits option.splits)

section \<open>The completion channel of \<open>Go\<close>\<close>

text \<open>
  Claim C10.  \<open>Go\<close> with a nil completion channel makes a new channel of capacity 10
  and the call it returns uses that channel; with a channel of capacity 0 it panics,
  and nothing is submitted; with a buffered channel the call uses the caller's
  channel, whose capacity stays what it was, and no channel is made.
\<close>

theorem Go_completion_channel:
  "(case dn of
      None \<Rightarrow>
        (\<exists>p s'. Go m a r dn s = Inr (p, s') \<and> Done (calls s' p) = nchans s \<and>
                cap (chans s' (nchans s)) = 10 \<and> nchans s' = nchans s + 1)
    | Some d \<Rightarrow>
        if cap (chans s d) = 0
        then Go m a r dn s = Inl (Panic ''rpc client: done channel is unbuffered'')
        else (\<exists>p s'. Go m a r dn s = Inr (p, s') \<and> Done (calls s' p) = d \<and>
                     cap (chans s' d) = cap (chans s d) \<and> nchans s' = nchans s))"
  by (simp add: Go_def Go_call_def make_chan_def new_Call_def Let_def send_Done send_cap
      send_nchans split: option.splits)

theorem Go_completion_channel_witness:
  "(\<exists>p s'. Go ''Foo.Sum'' (Str ''req-3'') '''' None (newClientCodec quiet_conn) = Inr (p, s') \<and>
      Done (calls s' p) = 0 \<and> cap (chans s' 0) = 10 \<and> nchans s' = 1) \<and>
   Go ''Foo.Sum'' (Str ''req-3'') '''' (Some 0) (snd (make_chan 0 (newClientCodec quiet_conn))) =
     Inl (Panic ''rpc client: done channel is unbuffered'')"
  using Go_completion_channel [where dn = None and m = "''Foo.Sum''" and a = "Str ''req-3''"
      and r = "''''" and s = "newClientCodec quiet_conn"]
    Go_completion_channel [where dn = "Some 0" and m = "''Foo.Sum''" and a = "Str ''req-3''"
      and r = "''''" and s = "snd (make_chan 0 (newClientCodec quiet_conn))"]
  by (simp add: newClientCodec_def make_chan_def)

section \<open>\<open>Close\<close> and the two flags\<close>

text \<open>
  Claim C8, as the source has it.  \<open>Close\<close> returns \<open>ErrShutdown\<close> exactly when
  \<open>shutdown\<close> is already set, and then changes nothing.  Otherwise it sets
  \<open>closing\<close>, closes the codec and returns what the codec's \<open>Close\<close> returns: nil
  when closing the connection succeeds, the connection's error when it does not.  Once
  \<open>closing\<close> or \<open>shutdown\<close> is set, it stays set through every later step of every
  goroutine, and \<open>registerCall\<close> fails with \<open>ErrShutdown\<close> without touching the
  client.
\<close>

theorem Close_and_registration:
  "(fst (Close s) = Some ErrShutdown \<longleftrightarrow> shutdown s) \<and>
   (shutdown s \<longrightarrow> snd (Close s) = s) \<and>
   (\<not> shutdown s \<longrightarrow>
      closing (snd (Close s)) \<and> closed (cc (snd (Close s))) \<and>
      fst (Close s) = map_option CodecError (fst (JsonCodec_Close (cc s)))) \<and>
   ((closing s \<or> shutdown s) \<and> exec sched s = Some s' \<longrightarrow>
      (closing s' \<or> shutdown s') \<and> registerCall p s' = ((0, Some ErrShutdown), s'))"
proof -
  have "(closing s \<or> shutdown s) \<and> exec sched s = Some s' \<longrightarrow>
      (closing s' \<or> shutdown s') \<and> registerCall p s' = ((0, Some ErrShutdown), s')"
    using exec_flags [of sched s s'] by (auto simp: registerCall_def)
  moreover have "fst (Close s) = Some ErrShutdown \<longleftrightarrow> shutdown s"
    by (auto simp: Close_def split: prod.splits option.splits)
  moreover have "shutdown s \<longrightarrow> snd (Close s) = s"
    by (simp add: Close_def)
  moreover have "\<not> shutdown s \<longrightarrow>
      closing (snd (Close s)) \<and> closed (cc (snd (Close s))) \<and>
      fst (Close s) = map_option CodecError (fst (JsonCodec_Close (cc s)))"
    by (auto simp: Close_def JsonCodec_Close_def split: prod.splits list.splits)
  ultimately show ?thesis by blast
qed

theorem Close_and_registration_witness:
  "\<not> shutdown (newClientCodec quiet_conn) \<and>
   fst (Close (newClientCodec quiet_conn)) = None \<and>
   closing (snd (Close (newClientCodec quiet_conn))) \<and>
   exec [CallClose, RecvHeader] (snd (Close (newClientCodec quiet_conn))) =
     Some (the (exec [CallClose, RecvHeader] (snd (Close (newClientCodec quiet_conn))))) \<and>
   fst (registerCall 0 (the (exec [CallClose, RecvHeader] (snd (Close (newClientCodec quiet_conn))))))
     = (0, Some ErrShutdown)"
  using Close_and_registration [where s = "newClientCodec quiet_conn"]
    Close_and_registration [where s = "snd (Close (newClientCodec quiet_conn))"
      and sched = "[CallClose, RecvHeader]" and p = 0
      and s' = "the (exec [CallClose, RecvHeader] (snd (Close (newClientCodec quiet_conn))))"]
  by (simp add: newClientCodec_def quiet_conn_def client_defs)

text \<open>
  The claim says that a \<open>Close\<close> that finds \<open>shutdown\<close> unset succeeds.  A second
  \<open>Close\<close> before the receiver has swept finds \<open>shutdown\<close> unset, closes the
  connection again and returns the connection's error.
\<close>

theorem Close_twice_counterexample:
  "fst (Close (newClientCodec twice_closed_conn)) = None \<and>
   \<not> shutdown (snd (Close (newClientCodec twice_closed_conn))) \<and>
   fst (Close (snd (Close (newClientCodec twice_closed_conn)))) =
     Some (CodecError ''use of closed network connection'')"
  by (simp add: newClientCodec_def twice_closed_conn_def Close_def JsonCodec_Close_def)

section \<open>The server\<close>

lemmas server_defs =
  readRequest_def readRequestHeader_def sendResponse_def JsonCodec_ReadHeader_def
  JsonCodec_ReadBody_def JsonCodec_Write_def JsonCodec_Close_def handleRequest_reply_def
  Let_def

lemmas server_splits =
  if_splits option.splits prod.splits sum.splits list.splits serve_pc.splits


lemma Returned_no_step:
  "serving s = Returned \<Longrightarrow> handlers s = [] \<Longrightarrow> server_step a s = None"
  by (cases a) simp_all

text \<open>
  Claim C5.  When the handshake decodes to an \<open>Option\<close> whose magic number is not
  \<open>MagicNumber\<close>, or whose codec type has no entry in \<open>NewCodecFuncMap\<close>,
  \<open>ServeConn\<close> returns without entering \<open>serveCodec\<close>: nothing is written, no frame
  is read, the connection is closed, and no goroutine of the connection ever takes a
  step.
\<close>

theorem ServeConn_rejects_handshake:
  assumes "MagicNumber_opt o' \<noteq> MagicNumber \<or> funcs (CodecType o') = None"
  shows "serving (ServeConn funcs (Inr o') conn) = Returned \<and>
         handlers (ServeConn funcs (Inr o') conn) = [] \<and>
         wlog (scc (ServeConn funcs (Inr o') conn)) = wlog conn \<and>
         hdr_in (scc (ServeConn funcs (Inr o') conn)) = hdr_in conn \<and>
         body_in (scc (ServeConn funcs (Inr o') conn)) = body_in conn \<and>
         closed (scc (ServeConn funcs (Inr o') conn)) \<and>
         (\<forall>sched s'. server_exec sched (ServeConn funcs (Inr o') conn) = Some s' \<longrightarrow> sched = [])"
proof -
  let ?s = "ServeConn funcs (Inr o') conn"
  have st: "?s = \<lparr>scc = snd (JsonCodec_Close conn), slock = False, serving = Returned,
                  handlers = []\<rparr>"
    using assms by (auto simp: ServeConn_def Let_def)
  have "sched = []" if "server_exec sched ?s = Some s'" for sched s'
  proof (cases sched)
    case Nil
    then show ?thesis .
  next
    case (Cons a as)
    have "server_step a ?s = None"
      by (rule Returned_no_step) (simp_all add: st)
    with that Cons show ?thesis by simp
  qed
  then show ?thesis
    by (simp add: st JsonCodec_Close_def split: list.splits)
qed

theorem ServeConn_rejects_handshake_witness:
  "serving (ServeConn json_funcs (Inr \<lparr>MagicNumber_opt = 0, CodecType = ''application/json''\<rparr>)
      foo_conn) = Returned \<and>
   wlog (scc (ServeConn json_funcs
      (Inr \<lparr>MagicNumber_opt = 0, CodecType = ''application/json''\<rparr>) foo_conn)) = [] \<and>
   serving (ServeConn json_funcs
      (Inr \<lparr>MagicNumber_opt = 0xffff7777, CodecType = ''application/gob''\<rparr>) foo_conn) = Returned \<and>
   serving (ServeConn json_funcs
      (Inr \<lparr>MagicNumber_opt = 0xffff7777, CodecType = ''application/json''\<rparr>) foo_conn) = Loop"
  using ServeConn_rejects_handshake [where o' = "\<lparr>MagicNumber_opt = 0, CodecType = ''application/json''\<rparr>"
      and funcs = json_funcs and conn = foo_conn]
    ServeConn_rejects_handshake [where o' = "\<lparr>MagicNumber_opt = 0xffff7777, CodecType = ''application/gob''\<rparr>"
      and funcs = json_funcs and conn = foo_conn]
  by (simp add: MagicNumber_def json_funcs_def foo_conn_def quiet_conn_def ServeConn_def
      serveCodec_def)

section \<open>The reply of the handler\<close>

lemma of_char_digit: "d < 10 \<Longrightarrow> of_char (digit d) = (48::nat) + d"
proof -
  assume "d < 10"
  then have "d = 0 \<or> d = 1 \<or> d = 2 \<or> d = 3 \<or> d = 4 \<or> d = 5 \<or> d = 6 \<or> d = 7 \<or> d = 8 \<or> d = 9"
    by arith
  then show ?thesis
    by (elim disjE) (simp_all add: digit_def)
qed

lemma dec_value_snoc: "dec_value (cs @ [c]) = 10 * dec_value cs + (of_char c - 48)"
  by (simp add: dec_value_def)

lemma dec_value_decimal: "dec_value (decimal n) = n"
proof (induction n rule: decimal.induct)
  case (1 n)
  show ?case
  proof (cases "n < 10")
    case True
    then show ?thesis
      by (simp add: decimal.simps [of n] dec_value_def of_char_digit)
  next
    case False
    with 1 have "dec_value (decimal (n div 10)) = n div 10" by simp
    with False show ?thesis
      by (simp add: decimal.simps [of n] dec_value_snoc of_char_digit)
  qed
qed

lemma decimal_3: "decimal 3 = ''3''"
  by (simp add: decimal.simps digit_def)

text \<open>
  Claim C9.  The reply that \<open>handleRequest\<close> makes is \<open>rpc resp\<close> followed by the
  decimal digits of the sequence number of the request, digits that denote that number;
  it contains them, it is the same for two requests with the same sequence number
  whatever their method and argument, and for sequence number 3 it is
  \<open>rpc resp 3\<close>.  It is the body that the handler writes, with the header of the
  request.
\<close>

theorem handleRequest_reply_of_seq:
  "replyv (handleRequest_reply req) = ''rpc resp '' @ decimal (unat (Seq_h (req_h req))) \<and>
   dec_value (decimal (unat (Seq_h (req_h req)))) = unat (Seq_h (req_h req)) \<and>
   sublist (decimal (unat (Seq_h (req_h req)))) (replyv (handleRequest_reply req)) \<and>
   (Seq_h (req_h req') = Seq_h (req_h req) \<longrightarrow>
      replyv (handleRequest_reply req') = replyv (handleRequest_reply req)) \<and>
   (Seq_h (req_h req) = 3 \<longrightarrow> replyv (handleRequest_reply req) = ''rpc resp 3'') \<and>
   (server_step (HandlerLock i) s = Some s1 \<and> server_step (HandlerWrite i) s1 = Some s2 \<longrightarrow>
      (\<exists>r. wlog (scc s2) = wlog (scc s) @
         [(req_h (fst (handlers s ! i)),
           Str (Sprintf_rpc_resp (Seq_h (req_h (fst (handlers s ! i))))), r)]))"
proof -
  have "sublist (decimal (unat (Seq_h (req_h req)))) (replyv (handleRequest_reply req))"
    unfolding sublist_def handleRequest_reply_def Sprintf_rpc_resp_def
    by (intro exI [of _ "''rpc resp ''"] exI [of _ "[]"]) simp
  moreover have "Seq_h (req_h req) = 3 \<longrightarrow> replyv (handleRequest_reply req) = ''rpc resp 3''"
    by (simp add: handleRequest_reply_def Sprintf_rpc_resp_def decimal_3)
  moreover have "server_step (HandlerLock i) s = Some s1 \<and>
      server_step (HandlerWrite i) s1 = Some s2 \<longrightarrow>
      (\<exists>r. wlog (scc s2) = wlog (scc s) @
         [(req_h (fst (handlers s ! i)),
           Str (Sprintf_rpc_resp (Seq_h (req_h (fst (handlers s ! i))))), r)])"
    by (auto simp: server_defs split: server_splits)
  ultimately show ?thesis
    by (simp add: handleRequest_reply_def Sprintf_rpc_resp_def dec_value_decimal)
qed

theorem handleRequest_reply_of_seq_witness:
  "replyv (handleRequest_reply \<lparr>req_h = \<lparr>ServiceMethod_h = ''Foo.Sum'', Seq_h = 3, Error_h = ''''\<rparr>,
      argv = ''req-3'', replyv = ''''\<rparr>) = ''rpc resp 3'' \<and>
   (\<exists>s. server_exec [ServerRead, HandlerLock 0, HandlerWrite 0] (serveCodec foo_conn) = Some s \<and>
        wlog (scc s) = [(\<lparr>ServiceMethod_h = ''Foo.Sum'', Seq_h = 3, Error_h = ''''\<rparr>,
                         Str ''rpc resp 3'', None)])"
  using handleRequest_reply_of_seq [where req = "\<lparr>req_h = \<lparr>ServiceMethod_h = ''Foo.Sum'', Seq_h = 3,
      Error_h = ''''\<rparr>, argv = ''req-3'', replyv = ''''\<rparr>"]
  by (simp add: server_defs serveCodec_def foo_conn_def quiet_conn_def Sprintf_rpc_resp_def
      decimal_3)

section \<open>The mutex and the wait group of a connection\<close>

lemma readRequest_codec:
  "readRequest c = (r, c') \<Longrightarrow>
     wlog c' = wlog c \<and> closed c' = closed c \<and> wr_res c' = wr_res c \<and> cl_res c' = cl_res c"
  by (auto simp: readRequest_def readRequestHeader_def JsonCodec_ReadHeader_def
      JsonCodec_ReadBody_def split: list.splits sum.splits prod.splits option.splits)

lemma readRequest_header_error:
  "JsonCodec_ReadHeader c = (Inl e, c1) \<Longrightarrow> readRequest c = ((None, Some e), c1)"
  by (simp add: readRequest_def readRequestHeader_def)


lemma sendResponse_wlog:
  "wlog (sendResponse h b c) = wlog c @ [(h, b, case wr_res c of [] \<Rightarrow> None | r # rs \<Rightarrow> r)]"
  by (simp add: server_defs split: option.splits list.splits)

lemma sendResponse_closed:
  "closed (sendResponse h b c) \<Longrightarrow> closed c \<or> write_failed (sendResponse h b c)"
  by (auto simp: server_defs write_failed_def split: option.splits list.splits)

lemma sendResponse_write_failed:
  "write_failed c \<Longrightarrow> write_failed (sendResponse h b c)"
  by (auto simp: write_failed_def sendResponse_wlog)

lemma server_step_cases [consumes 1, case_names Break Invalid Dispatch Lock Write Close
    HandlerLock HandlerWrite]:
  assumes "server_step a s = Some s'"
  obtains
    (Break) c e where "a = ServerRead" "serving s = Loop"
      "s' = s\<lparr>scc := c, serving := Waiting\<rparr>" "readRequest (scc s) = ((None, e), c)"
  | (Invalid) c req e where "a = ServerRead" "serving s = Loop"
      "s' = s\<lparr>scc := c, serving := Invalid ((req_h req)\<lparr>Error_h := e\<rparr>)\<rparr>"
      "readRequest (scc s) = ((Some req, Some e), c)"
  | (Dispatch) c req where "a = ServerRead" "serving s = Loop"
      "s' = s\<lparr>scc := c, handlers := handlers s @ [(req, False)]\<rparr>"
      "readRequest (scc s) = ((Some req, None), c)"
  | (Lock) h where "a = ServerLock" "serving s = Invalid h" "\<not> slock s"
      "s' = s\<lparr>slock := True, serving := InvalidLocked h\<rparr>"
  | (Write) h where "a = ServerWrite" "serving s = InvalidLocked h"
      "s' = s\<lparr>scc := sendResponse h EmptyStruct (scc s), slock := False, serving := Loop\<rparr>"
  | (Close) "a = ServerClose" "serving s = Waiting" "handlers s = []"
      "s' = s\<lparr>scc := snd (JsonCodec_Close (snd (JsonCodec_Close (scc s)))), serving := Returned\<rparr>"
  | (HandlerLock) i where "a = HandlerLock i" "i < length (handlers s)"
      "\<not> snd (handlers s ! i)" "\<not> slock s"
      "s' = s\<lparr>slock := True,
              handlers := (handlers s)[i := (handleRequest_reply (fst (handlers s ! i)), True)]\<rparr>"
  | (HandlerWrite) i where "a = HandlerWrite i" "i < length (handlers s)" "snd (handlers s ! i)"
      "s' = s\<lparr>scc := sendResponse (req_h (fst (handlers s ! i)))
                       (Str (replyv (fst (handlers s ! i)))) (scc s),
              slock := False,
              handlers := take i (handlers s) @ drop (Suc i) (handlers s)\<rparr>"
proof (cases a)
  case ServerRead
  with assms that(1-3) show ?thesis
    by (auto split: serve_pc.splits prod.splits option.splits)
next
  case ServerLock
  with assms that(4) show ?thesis
    by (auto split: serve_pc.splits if_splits)
next
  case ServerWrite
  with assms that(5) show ?thesis
    by (auto split: serve_pc.splits)
next
  case ServerClose
  with assms that(6) show ?thesis
    by (auto split: serve_pc.splits if_splits)
next
  case (HandlerLock i)
  with assms that(7) show ?thesis
    by (auto split: if_splits)
next
  case (HandlerWrite i)
  with assms that(8) show ?thesis
    by (auto simp: Let_def split: if_splits)
qed

lemma server_exec_induct [consumes 1, case_names start step]:
  assumes "server_exec sched s = Some s'"
    and "P s"
    and "\<And>a t t'. P t \<Longrightarrow> server_step a t = Some t' \<Longrightarrow> P t'"
  shows "P s'"
  using assms(1,2)
proof (induction sched arbitrary: s)
  case Nil
  then show ?case by simp
next
  case (Cons a sched)
  from Cons.prems obtain s1 where 1: "server_step a s = Some s1"
    and 2: "server_exec sched s1 = Some s'"
    by (auto split: option.splits)
  from assms(3) [OF Cons.prems(2) 1] have "P s1" .
  with 2 show ?case by (rule Cons.IH)
qed







section \<open>A request whose body does not decode\<close>














section \<open>A header that does not decode\<close>

lemma Close_not_write_failed:
  "write_failed (snd (JsonCodec_Close c)) = write_failed c"
  by (simp add: write_failed_def JsonCodec_Close_def split: list.splits)

lemma drain_step:
  assumes "(serving s = Returned \<longrightarrow> handlers s = []) \<and>
      (closed (scc s) \<longrightarrow> closed c0 \<or> write_failed (scc s) \<or> serving s = Returned)"
    and "server_step a s = Some s'"
  shows "(serving s' = Returned \<longrightarrow> handlers s' = []) \<and>
      (closed (scc s') \<longrightarrow> closed c0 \<or> write_failed (scc s') \<or> serving s' = Returned)"
  using assms(2)
proof (cases rule: server_step_cases)
  case (Break c e)
  with assms(1) readRequest_codec [OF Break(4)] show ?thesis
    by (simp add: write_failed_def)
next
  case (Invalid c req e)
  with assms(1) readRequest_codec [OF Invalid(4)] show ?thesis
    by (simp add: write_failed_def)
next
  case (Dispatch c req)
  with assms(1) readRequest_codec [OF Dispatch(4)] show ?thesis
    by (simp add: write_failed_def)
next
  case (Lock h)
  with assms(1) show ?thesis by simp
next
  case (Write h)
  with assms(1) sendResponse_closed [of h EmptyStruct "scc s"]
    sendResponse_write_failed [of "scc s" h EmptyStruct]
  show ?thesis by auto
next
  case Close
  then show ?thesis by simp
next
  case (HandlerLock i)
  with assms(1) show ?thesis by auto
next
  case (HandlerWrite i)
  with assms(1) sendResponse_closed [of "req_h (fst (handlers s ! i))"
      "Str (replyv (fst (handlers s ! i)))" "scc s"]
    sendResponse_write_failed [of "scc s" "req_h (fst (handlers s ! i))"
      "Str (replyv (fst (handlers s ! i)))"]
  show ?thesis by auto
qed

lemma drain_exec:
  assumes "server_exec sched (serveCodec c0) = Some s"
  shows "(serving s = Returned \<longrightarrow> handlers s = []) \<and>
      (closed (scc s) \<longrightarrow> closed c0 \<or> write_failed (scc s) \<or> serving s = Returned)"
  using assms
proof (induction rule: server_exec_induct)
  case start
  show ?case by (simp add: serveCodec_def)
next
  case (step a t t')
  then show ?case by (rule drain_step)
qed

text \<open>
  Claim C7, as the source has it.  In every state \<open>s\<close> that a connection can reach:
  a header that fails to decode takes the main goroutine from the loop to
  \<open>wg.Wait()\<close>, and that step writes nothing and starts no handler; at
  \<open>wg.Wait()\<close> the main goroutine can do one thing, close the codec, and it can do
  it exactly when no handler is left; once \<open>ServeConn\<close> has returned there is no
  handler and no goroutine of the connection takes another step, so no handler writes
  after \<open>serveCodec\<close> has closed the codec.  A handler can still find the codec
  closed, by a \<open>Write\<close> that failed: if the codec is closed while a handler is left,
  then it was closed from the start or a \<open>Write\<close> has failed.
\<close>

theorem header_failure_drains_then_closes:
  assumes "server_exec sched (serveCodec c0) = Some s"
  shows "(serving s = Loop \<and> JsonCodec_ReadHeader (scc s) = (Inl e, c1) \<longrightarrow>
      server_step ServerRead s = Some (s\<lparr>scc := c1, serving := Waiting\<rparr>) \<and>
      wlog c1 = wlog (scc s)) \<and>
    (serving s = Waiting \<longrightarrow>
      server_step ServerRead s = None \<and> server_step ServerLock s = None \<and>
      server_step ServerWrite s = None \<and>
      (server_step ServerClose s \<noteq> None \<longleftrightarrow> handlers s = []) \<and>
      (\<forall>s2. server_step ServerClose s = Some s2 \<longrightarrow>
         serving s2 = Returned \<and> closed (scc s2) \<and> wlog (scc s2) = wlog (scc s))) \<and>
    (serving s = Returned \<longrightarrow> handlers s = [] \<and> (\<forall>a. server_step a s = None)) \<and>
    (closed (scc s) \<and> handlers s \<noteq> [] \<longrightarrow> closed c0 \<or> write_failed (scc s))"
proof -
  note inv = drain_exec [OF assms]
  have "server_step ServerRead s = Some (s\<lparr>scc := c1, serving := Waiting\<rparr>) \<and>
      wlog c1 = wlog (scc s)"
    if "serving s = Loop" "JsonCodec_ReadHeader (scc s) = (Inl e, c1)"
    using that readRequest_header_error [OF that(2)]
      readRequest_codec [OF readRequest_header_error [OF that(2)]]
    by simp
  moreover have "server_step ServerRead s = None \<and> server_step ServerLock s = None \<and>
      server_step ServerWrite s = None \<and>
      (server_step ServerClose s \<noteq> None \<longleftrightarrow> handlers s = []) \<and>
      (\<forall>s2. server_step ServerClose s = Some s2 \<longrightarrow>
         serving s2 = Returned \<and> closed (scc s2) \<and> wlog (scc s2) = wlog (scc s))"
    if "serving s = Waiting"
    using that by (auto simp: JsonCodec_Close_def split: list.splits)
  moreover have "handlers s = [] \<and> (\<forall>a. server_step a s = None)"
    if "serving s = Returned"
    using that inv Returned_no_step by blast
  moreover have "closed c0 \<or> write_failed (scc s)"
    if "closed (scc s)" "handlers s \<noteq> []"
    using that inv by blast
  ultimately show ?thesis by blast
qed

theorem header_failure_drains_then_closes_witness:
  "server_exec [ServerRead, ServerRead] (serveCodec foo_conn) =
     Some (the (server_exec [ServerRead, ServerRead] (serveCodec foo_conn))) \<and>
   serving (the (server_exec [ServerRead, ServerRead] (serveCodec foo_conn))) = Waiting \<and>
   length (handlers (the (server_exec [ServerRead, ServerRead] (serveCodec foo_conn)))) = 1 \<and>
   server_step ServerClose (the (server_exec [ServerRead, ServerRead] (serveCodec foo_conn))) =
     None \<and>
   server_exec [ServerRead, ServerRead, HandlerLock 0, HandlerWrite 0, ServerClose]
       (serveCodec foo_conn) =
     Some (the (server_exec [ServerRead, ServerRead, HandlerLock 0, HandlerWrite 0, ServerClose]
       (serveCodec foo_conn))) \<and>
   serving (the (server_exec [ServerRead, ServerRead, HandlerLock 0, HandlerWrite 0, ServerClose]
       (serveCodec foo_conn))) = Returned \<and>
   handlers (the (server_exec [ServerRead, ServerRead, HandlerLock 0, HandlerWrite 0, ServerClose]
       (serveCodec foo_conn))) = []"
  using header_failure_drains_then_closes [where ?c0.0 = foo_conn
      and sched = "[ServerRead, ServerRead]"
      and s = "the (server_exec [ServerRead, ServerRead] (serveCodec foo_conn))"]
    header_failure_drains_then_closes [where ?c0.0 = foo_conn
      and sched = "[ServerRead, ServerRead, HandlerLock 0, HandlerWrite 0, ServerClose]"
      and s = "the (server_exec [ServerRead, ServerRead, HandlerLock 0, HandlerWrite 0,
        ServerClose] (serveCodec foo_conn))"]
  by (simp add: server_defs serveCodec_def foo_conn_def quiet_conn_def)

text \<open>
  The claim says that no handler ever writes to a codec that is already closed.  On
  \<open>broken_pipe_conn\<close> two requests are dispatched and the next header fails; the
  first handler's \<open>Write\<close> fails and closes the codec; the second handler then takes
  the mutex and writes to the closed codec, while the main goroutine is at
  \<open>wg.Wait()\<close>.
\<close>

theorem handler_writes_to_closed_codec_counterexample:
  "server_exec [ServerRead, ServerRead, ServerRead, HandlerLock 0, HandlerWrite 0, HandlerLock 0]
     (serveCodec broken_pipe_conn) = Some closed_before_write \<and>
   serving closed_before_write = Waiting \<and>
   closed (scc closed_before_write) \<and>
   server_step (HandlerWrite 0) closed_before_write =
     Some (closed_before_write
       \<lparr>scc := (scc closed_before_write)
          \<lparr>wlog := wlog (scc closed_before_write) @
             [(\<lparr>ServiceMethod_h = ''Foo.Sum'', Seq_h = 2, Error_h = ''''\<rparr>,
               Str ''rpc resp 2'', None)]\<rparr>,
        slock := False, handlers := []\<rparr>)"
  by (simp add: server_defs serveCodec_def broken_pipe_conn_def quiet_conn_def
      closed_before_write_def Sprintf_rpc_resp_def decimal.simps digit_def)

section \<open>The steps of the client, case by case\<close>

lemma Go_call_Inr:
  assumes "Go_call m a r dn s = Inr (p, s1)"
  shows "p = ncalls s \<and> ncalls s1 = Suc (ncalls s) \<and> pending s1 = pending s \<and>
    seq s1 = seq s \<and> closing s1 = closing s \<and> shutdown s1 = shutdown s \<and>
    sending s1 = sending s \<and> receiver s1 = receiver s \<and> cc s1 = cc s \<and>
    header s1 = header s \<and>
    calls s1 = (calls s)(ncalls s := \<lparr>Seq = 0, ServiceMethod = m, Args = a, Reply = r,
      Error = None, Done = (case dn of None \<Rightarrow> nchans s | Some d \<Rightarrow> d)\<rparr>) \<and>
    nchans s1 = (case dn of None \<Rightarrow> Suc (nchans s) | Some d \<Rightarrow> nchans s) \<and>
    chans s1 = (case dn of None \<Rightarrow> (chans s)(nchans s := \<lparr>cap = 10, buf = []\<rparr>)
                | Some d \<Rightarrow> chans s)"
  using assms
  by (auto simp: Go_call_def make_chan_def new_Call_def Let_def split: option.splits if_splits)

lemma receive_dispatch_effect:
  assumes "receive_dispatch h co s = (eo, s1)"
  shows "pending s1 = pending s \<and> seq s1 = seq s \<and> closing s1 = closing s \<and>
    shutdown s1 = shutdown s \<and> sending s1 = sending s \<and> receiver s1 = receiver s \<and>
    ncalls s1 = ncalls s \<and> nchans s1 = nchans s \<and> header s1 = header s \<and>
    hdr_in (cc s1) = hdr_in (cc s) \<and> wlog (cc s1) = wlog (cc s) \<and>
    (\<forall>q. Done (calls s1 q) = Done (calls s q)) \<and>
    (\<forall>q. co \<noteq> Some q \<longrightarrow> calls s1 q = calls s q) \<and>
    chans s1 = (case co of None \<Rightarrow> chans s | Some p \<Rightarrow> chans (call_done p s))"
  using assms
  by (auto simp: receive_dispatch_def JsonCodec_ReadBody_def Let_def call_done_def set_Error_def
      split: option.splits if_splits list.splits sum.splits prod.splits)

lemma step_cases [consumes 1, case_names MakeChan GoPanic GoRejected GoRegistered WriteOk
    WriteFail CleanupNone CleanupSome CloseShutdown Close HeaderErr HeaderOk Remove Body
    Terminate]:
  assumes "step a s = Some s'"
  obtains
    (MakeChan) n where "a = MakeChan n"
      "s' = s\<lparr>chans := (chans s)(nchans s := \<lparr>cap = n, buf = []\<rparr>), nchans := nchans s + 1\<rparr>"
  | (GoPanic) m ar r d where "a = GoRegister m ar r (Some d)" "d < nchans s"
      "cap (chans s d) = 0" "s' = s"
  | (GoRejected) m ar r dn p s1 where "a = GoRegister m ar r dn"
      "Go_call m ar r dn s = Inr (p, s1)" "\<forall>d. dn = Some d \<longrightarrow> d < nchans s"
      "sending s = Unlocked" "closing s \<or> shutdown s"
      "s' = call_done p (set_Error p ErrShutdown s1)"
  | (GoRegistered) m ar r dn p s1 where "a = GoRegister m ar r dn"
      "Go_call m ar r dn s = Inr (p, s1)" "\<forall>d. dn = Some d \<longrightarrow> d < nchans s"
      "sending s = Unlocked" "\<not> closing s" "\<not> shutdown s"
      "s' = s1\<lparr>calls := (calls s1)(p := (calls s1 p)\<lparr>Seq := seq s\<rparr>),
               pending := (pending s)(seq s \<mapsto> p), seq := seq s + 1,
               sending := Registered p (seq s)\<rparr>"
  | (WriteOk) p sq h c where "a = SendWrite" "sending s = Registered p sq"
      "h = (header s)\<lparr>ServiceMethod_h := ServiceMethod (calls s p), Seq_h := sq, Error_h := ''''\<rparr>"
      "JsonCodec_Write h (Args (calls s p)) (cc s) = (None, c)"
      "s' = s\<lparr>header := h, cc := c, sending := Unlocked\<rparr>"
  | (WriteFail) p sq h c e where "a = SendWrite" "sending s = Registered p sq"
      "h = (header s)\<lparr>ServiceMethod_h := ServiceMethod (calls s p), Seq_h := sq, Error_h := ''''\<rparr>"
      "JsonCodec_Write h (Args (calls s p)) (cc s) = (Some e, c)"
      "s' = s\<lparr>header := h, cc := c, sending := WriteFailed p sq e\<rparr>"
  | (CleanupNone) p sq e where "a = SendCleanup" "sending s = WriteFailed p sq e"
      "pending s sq = None" "s' = s\<lparr>pending := (pending s)(sq := None), sending := Unlocked\<rparr>"
  | (CleanupSome) p sq e q where "a = SendCleanup" "sending s = WriteFailed p sq e"
      "pending s sq = Some q"
      "s' = (call_done q (set_Error q (CodecError e) (s\<lparr>pending := (pending s)(sq := None)\<rparr>)))
              \<lparr>sending := Unlocked\<rparr>"
  | (CloseShutdown) "a = CallClose" "shutdown s" "s' = s"
  | (Close) "a = CallClose" "\<not> shutdown s"
      "s' = s\<lparr>cc := snd (JsonCodec_Close (cc s)), closing := True\<rparr>"
  | (HeaderErr) e c where "a = RecvHeader" "receiver s = ReadingHeader"
      "JsonCodec_ReadHeader (cc s) = (Inl e, c)" "s' = s\<lparr>cc := c, receiver := Exited e\<rparr>"
  | (HeaderOk) h c where "a = RecvHeader" "receiver s = ReadingHeader"
      "JsonCodec_ReadHeader (cc s) = (Inr h, c)" "s' = s\<lparr>cc := c, receiver := GotHeader h\<rparr>"
  | (Remove) h where "a = RecvRemove" "receiver s = GotHeader h"
      "s' = s\<lparr>pending := (pending s)(Seq_h h := None),
              receiver := Removed h (pending s (Seq_h h))\<rparr>"
  | (Body) h co eo s1 where "a = RecvBody" "receiver s = Removed h co"
      "receive_dispatch h co s = (eo, s1)"
      "s' = s1\<lparr>receiver := (case eo of None \<Rightarrow> ReadingHeader | Some e \<Rightarrow> Exited e)\<rparr>"
  | (Terminate) order e where "a = RecvTerminate order" "receiver s = Exited e"
      "sending s = Unlocked" "enumerates order (pending s)"
      "s' = (sweep (CodecError e) order (s\<lparr>shutdown := True\<rparr>))\<lparr>receiver := Terminated\<rparr>"
proof (cases a)
  case (MakeChan n)
  with assms that(1) show ?thesis by (simp add: make_chan_def)
next
  case (GoRegister m ar r dn)
  show ?thesis
  proof (cases "Go_call m ar r dn s")
    case (Inl x)
    with assms GoRegister that(2) show ?thesis
      by (auto simp: Go_call_def make_chan_def new_Call_def Let_def split: option.splits if_splits)
  next
    case (Inr ps)
    obtain p s1 where ps: "ps = (p, s1)" by (cases ps)
    note g = Go_call_Inr [OF Inr [unfolded ps]]
    from assms GoRegister Inr ps have v: "\<forall>d. dn = Some d \<longrightarrow> d < nchans s"
      and u: "sending s = Unlocked"
      by (auto split: option.splits if_splits)
    show ?thesis
    proof (cases "closing s \<or> shutdown s")
      case True
      with assms GoRegister Inr ps v u g that(3) [of m ar r dn p s1] show ?thesis
        by (auto simp: send_register_def registerCall_def split: option.splits if_splits)
    next
      case False
      with assms GoRegister Inr ps v u g that(4) [of m ar r dn p s1] show ?thesis
        by (auto simp: send_register_def registerCall_def split: option.splits if_splits)
    qed
  qed
next
  case SendWrite
  with assms that(5,6) show ?thesis
    by (auto simp: send_write_def Let_def split: send_pc.splits prod.splits option.splits)
next
  case SendCleanup
  with assms that(7,8) show ?thesis
    by (auto simp: send_cleanup_def removeCall_def split: send_pc.splits option.splits)
next
  case CallClose
  with assms that(9,10) show ?thesis
    by (auto simp: Close_def split: prod.splits if_splits)
next
  case RecvHeader
  with assms that(11,12) show ?thesis
    by (auto split: recv_pc.splits prod.splits sum.splits)
next
  case RecvRemove
  with assms that(13) show ?thesis
    by (auto simp: removeCall_def split: recv_pc.splits)
next
  case RecvBody
  with assms that(14) show ?thesis
    by (auto split: recv_pc.splits prod.splits option.splits)
next
  case (RecvTerminate order)
  with assms that(15) show ?thesis
    by (auto simp: terminateCalls_def split: recv_pc.splits if_splits)
qed

section \<open>What every reachable state of a client satisfies\<close>

lemma exec_induct [consumes 1, case_names start step]:
  assumes "exec sched s = Some s'"
    and "P s"
    and "\<And>a t t'. P t \<Longrightarrow> step a t = Some t' \<Longrightarrow> P t'"
  shows "P s'"
  using assms(1,2)
proof (induction sched arbitrary: s)
  case Nil
  then show ?case by simp
next
  case (Cons a sched)
  from Cons.prems obtain s1 where 1: "step a s = Some s1" and 2: "exec sched s1 = Some s'"
    by (auto split: option.splits)
  from assms(3) [OF Cons.prems(2) 1] have "P s1" .
  with 2 show ?case by (rule Cons.IH)
qed

lemma deliveries_call_done:
  "deliveries (call_done q s) p = deliveries s p + (if p = q then 1 else 0)"
  by (simp add: deliveries_def call_done_chans)

lemma deliveries_set_Error [simp]: "deliveries (set_Error q e s) p = deliveries s p"
  by (simp add: deliveries_def)

lemma deliveries_cong:
  "chans s' = chans s \<Longrightarrow> Done (calls s' p) = Done (calls s p) \<Longrightarrow>
     deliveries s' p = deliveries s p"
  by (simp add: deliveries_def)

lemma not_in_buf_deliveries:
  "p \<notin> set (buf (chans s (Done (calls s p)))) \<Longrightarrow> deliveries s p = 0"
  by (simp add: deliveries_def)

lemma safeD:
  assumes "safe s"
  shows "pending s k = Some p \<Longrightarrow> p < ncalls s"
    and "pending s k = Some p \<Longrightarrow> pending s k' = Some p \<Longrightarrow> k = k'"
    and "receiver s = Removed h (Some p) \<Longrightarrow> p < ncalls s \<and> pending s k \<noteq> Some p"
    and "\<not> shutdown s \<Longrightarrow> pending s k = Some p \<Longrightarrow> deliveries s p = 0"
    and "\<not> shutdown s \<Longrightarrow> receiver s = Removed h (Some p) \<Longrightarrow> deliveries s p = 0"
    and "deliveries s p \<le> 1"
    and "q \<in> set (buf (chans s c)) \<Longrightarrow> q < ncalls s \<and> c = Done (calls s q)"
    and "shutdown s \<longleftrightarrow> receiver s = Terminated"
    and "sending s \<noteq> Unlocked \<Longrightarrow> \<not> shutdown s"
    and "nchans s \<le> c \<Longrightarrow> buf (chans s c) = []"
    and "p < ncalls s \<Longrightarrow> Done (calls s p) < nchans s"
  using assms unfolding safe_def by blast+

lemma fresh_call_undelivered:
  assumes "safe s" and "ncalls s \<le> p"
  shows "p \<notin> set (buf (chans s c))"
  using safeD(7) [OF assms(1), of p c] assms(2) by auto

lemma sweep_calls_Done [simp]: "Done (calls (sweep err ks s) q) = Done (calls s q)"
  by (induction ks arbitrary: s) (simp_all split: option.splits)

lemma sweep_deliveries:
  "deliveries (sweep err ks s) p =
     deliveries s p + length (filter (\<lambda>k. pending s k = Some p) ks)"
proof (induction ks arbitrary: s)
  case Nil
  show ?case by simp
next
  case (Cons k ks)
  show ?case
  proof (cases "pending s k")
    case None
    then show ?thesis by (simp add: Cons.IH)
  next
    case (Some q)
    then show ?thesis
      by (simp add: Cons.IH deliveries_call_done)
  qed
qed

lemma sweep_buf:
  "q \<in> set (buf (chans (sweep err ks s) c)) \<Longrightarrow>
     q \<in> set (buf (chans s c)) \<or> (\<exists>k \<in> set ks. pending s k = Some q \<and> c = Done (calls s q))"
proof (induction ks arbitrary: s)
  case Nil
  then show ?case by simp
next
  case (Cons k ks)
  show ?case
  proof (cases "pending s k")
    case None
    with Cons show ?thesis by auto
  next
    case (Some p)
    with Cons.prems have "q \<in> set (buf (chans (sweep err ks (call_done p (set_Error p err s))) c))"
      by simp
    from Cons.IH [OF this] Some show ?thesis
      by (auto simp: call_done_chans split: if_splits)
  qed
qed

lemma sweep_buf_unmade:
  assumes "buf (chans s c) = []" and "\<forall>k p. pending s k = Some p \<longrightarrow> Done (calls s p) \<noteq> c"
  shows "buf (chans (sweep err ks s) c) = []"
proof -
  have "q \<notin> set (buf (chans (sweep err ks s) c))" for q
    using sweep_buf [of q err ks s c] assms by auto
  then show ?thesis
    by (cases "buf (chans (sweep err ks s) c)") auto
qed

lemma distinct_all_eq_length:
  assumes "distinct xs" and "\<And>x y. x \<in> set xs \<Longrightarrow> y \<in> set xs \<Longrightarrow> x = y"
  shows "length xs \<le> 1"
proof (cases xs)
  case Nil
  then show ?thesis by simp
next
  case (Cons x ys)
  note xs = Cons
  show ?thesis
  proof (cases ys)
    case Nil
    with xs show ?thesis by simp
  next
    case (Cons y zs)
    from assms(1) xs Cons have "x \<noteq> y" by simp
    moreover have "x = y"
      by (rule assms(2)) (simp_all add: xs Cons)
    ultimately show ?thesis by simp
  qed
qed

lemma filter_key_le_1:
  assumes "distinct ks" and "\<forall>k k'. pending s k = Some p \<and> pending s k' = Some p \<longrightarrow> k = k'"
  shows "length (filter (\<lambda>k. pending s k = Some p) ks) \<le> 1"
proof (rule distinct_all_eq_length)
  show "distinct (filter (\<lambda>k. pending s k = Some p) ks)"
    using assms(1) by simp
next
  fix x y
  assume "x \<in> set (filter (\<lambda>k. pending s k = Some p) ks)"
    and "y \<in> set (filter (\<lambda>k. pending s k = Some p) ks)"
  then have "pending s x = Some p" "pending s y = Some p" by simp_all
  with assms(2) show "x = y" by blast
qed

lemma filter_key_eq_1:
  assumes "distinct ks" and "\<forall>k k'. pending s k = Some p \<and> pending s k' = Some p \<longrightarrow> k = k'"
    and "k \<in> set ks" and "pending s k = Some p"
  shows "length (filter (\<lambda>k. pending s k = Some p) ks) = 1"
proof -
  have "\<exists>x \<in> set ks. pending s x = Some p"
    using assms(3,4) by (rule bexI [rotated])
  then have "filter (\<lambda>k. pending s k = Some p) ks \<noteq> []"
    by (simp add: filter_empty_conv)
  then have "length (filter (\<lambda>k. pending s k = Some p) ks) \<noteq> 0"
    by simp
  with filter_key_le_1 [OF assms(1,2)] show ?thesis
    by linarith
qed

lemma filter_key_eq_0:
  assumes "\<forall>k. pending s k \<noteq> Some p"
  shows "length (filter (\<lambda>k. pending s k = Some p) ks) = 0"
  using assms by simp


lemma deliveries_frame:
  "\<forall>c. buf (chans s' c) = buf (chans s c) \<Longrightarrow> Done (calls s' p) = Done (calls s p) \<Longrightarrow>
     deliveries s' p = deliveries s p"
  by (simp add: deliveries_def)

lemma safe_frame:
  assumes "safe s"
    and "\<forall>k x. pending s' k = Some x \<longrightarrow> pending s k = Some x"
    and "ncalls s' = ncalls s" and "shutdown s' = shutdown s"
    and "\<forall>c. buf (chans s' c) = buf (chans s c)"
    and "\<forall>p. Done (calls s' p) = Done (calls s p)"
    and "\<forall>h x. receiver s' = Removed h (Some x) \<longrightarrow>
           (receiver s = Removed h (Some x) \<or> (\<exists>k. pending s k = Some x)) \<and>
           (\<forall>k. pending s' k \<noteq> Some x)"
    and "receiver s' = Terminated \<longleftrightarrow> receiver s = Terminated"
    and "sending s' \<noteq> Unlocked \<longrightarrow> sending s \<noteq> Unlocked"
    and "nchans s \<le> nchans s'"
  shows "safe s' \<and> (\<forall>p. deliveries s' p = deliveries s p)"
proof -
  note d = safeD [OF assms(1)]
  have del: "deliveries s' p = deliveries s p" for p
    using assms(5,6) by (simp add: deliveries_frame)
  have "safe s'"
    unfolding safe_def del assms(3,4)
  proof (intro conjI allI impI)
    fix k p assume "pending s' k = Some p"
    with assms(2) have "pending s k = Some p" by blast
    then show "p < ncalls s" by (rule d(1))
  next
    fix k k' p assume "pending s' k = Some p \<and> pending s' k' = Some p"
    with assms(2) have "pending s k = Some p" "pending s k' = Some p" by blast+
    then show "k = k'" by (rule d(2))
  next
    fix h p assume "receiver s' = Removed h (Some p)"
    with assms(7) have "receiver s = Removed h (Some p) \<or> (\<exists>k. pending s k = Some p)" by blast
    then show "p < ncalls s" using d(1,3) by blast
  next
    fix h p k assume "receiver s' = Removed h (Some p)"
    with assms(7) show "pending s' k \<noteq> Some p" by blast
  next
    fix k p assume "\<not> shutdown s" "pending s' k = Some p"
    with assms(2) have "\<not> shutdown s" "pending s k = Some p" by blast+
    then show "deliveries s p = 0" by (rule d(4))
  next
    fix h p assume a: "\<not> shutdown s" "receiver s' = Removed h (Some p)"
    with assms(7) have "receiver s = Removed h (Some p) \<or> (\<exists>k. pending s k = Some p)" by blast
    with a(1) show "deliveries s p = 0" using d(4,5) by blast
  next
    fix p show "deliveries s p \<le> 1" by (rule d(6))
  next
    fix c q assume "q \<in> set (buf (chans s' c))"
    with assms(5) have "q \<in> set (buf (chans s c))" by simp
    then show "q < ncalls s" using d(7) by blast
  next
    fix c q assume "q \<in> set (buf (chans s' c))"
    with assms(5) have "q \<in> set (buf (chans s c))" by simp
    then have "c = Done (calls s q)" using d(7) by blast
    with assms(6) show "c = Done (calls s' q)" by simp
  next
    show "shutdown s = (receiver s' = Terminated)"
      using d(8) assms(8) by simp
  next
    assume "sending s' \<noteq> Unlocked"
    with assms(9) have "sending s \<noteq> Unlocked" by blast
    then show "\<not> shutdown s" by (rule d(9))
  next
    fix c assume "nchans s' \<le> c"
    with assms(10) have "nchans s \<le> c" by simp
    then have "buf (chans s c) = []" by (rule d(10))
    with assms(5) show "buf (chans s' c) = []" by simp
  next
    fix p assume "p < ncalls s"
    then have "Done (calls s p) < nchans s" by (rule d(11))
    with assms(6,10) show "Done (calls s' p) < nchans s'" by simp
  qed
  with del show ?thesis by blast
qed

lemma safe_deliver:
  assumes "safe s" and "\<not> shutdown s" and "q < ncalls s" and "deliveries s q = 0"
    and "ncalls s' = ncalls s" and "shutdown s' = shutdown s" and "nchans s' = nchans s"
    and "\<forall>x. Done (calls s' x) = Done (calls s x)"
    and "\<forall>c. buf (chans s' c) =
           (if c = Done (calls s q) then buf (chans s c) @ [q] else buf (chans s c))"
    and "\<forall>k x. pending s' k = Some x \<longrightarrow> pending s k = Some x \<and> x \<noteq> q"
    and "\<forall>h x. receiver s' = Removed h (Some x) \<longrightarrow> receiver s = Removed h (Some x) \<and> x \<noteq> q"
    and "receiver s' \<noteq> Terminated"
  shows "safe s' \<and> deliveries s' q = 1 \<and> (\<forall>x. x \<noteq> q \<longrightarrow> deliveries s' x = deliveries s x)"
proof -
  note d = safeD [OF assms(1)]
  have delq: "deliveries s' q = 1"
    using assms(4,8,9) by (simp add: deliveries_def)
  have delx: "deliveries s' x = deliveries s x" if "x \<noteq> q" for x
    using that assms(8,9) by (simp add: deliveries_def)
  have "safe s'"
    unfolding safe_def assms(5,6,7)
  proof (intro conjI allI impI)
    fix k p assume "pending s' k = Some p"
    with assms(10) have "pending s k = Some p" by blast
    then show "p < ncalls s" by (rule d(1))
  next
    fix k k' p assume "pending s' k = Some p \<and> pending s' k' = Some p"
    with assms(10) have "pending s k = Some p" "pending s k' = Some p" by blast+
    then show "k = k'" by (rule d(2))
  next
    fix h p assume "receiver s' = Removed h (Some p)"
    with assms(11) have "receiver s = Removed h (Some p)" by blast
    then show "p < ncalls s" using d(3) by blast
  next
    fix h p k assume "receiver s' = Removed h (Some p)"
    with assms(11) have "receiver s = Removed h (Some p)" by blast
    then have "pending s k \<noteq> Some p" using d(3) by blast
    with assms(10) show "pending s' k \<noteq> Some p" by blast
  next
    fix k p assume "pending s' k = Some p"
    with assms(10) have "pending s k = Some p" "p \<noteq> q" by blast+
    with assms(2) d(4) show "deliveries s' p = 0" by (simp add: delx)
  next
    fix h p assume "receiver s' = Removed h (Some p)"
    with assms(11) have "receiver s = Removed h (Some p)" "p \<noteq> q" by blast+
    with assms(2) d(5) show "deliveries s' p = 0" by (simp add: delx)
  next
    fix p show "deliveries s' p \<le> 1"
      using delq delx [of p] d(6) [of p] by (cases "p = q") simp_all
  next
    fix c x assume "x \<in> set (buf (chans s' c))"
    with assms(9) have "x \<in> set (buf (chans s c)) \<or> x = q"
      by (auto split: if_splits)
    then show "x < ncalls s" using d(7) assms(3) by blast
  next
    fix c x assume a: "x \<in> set (buf (chans s' c))"
    have "c = Done (calls s x)"
    proof (cases "x \<in> set (buf (chans s c))")
      case True
      then show ?thesis using d(7) by blast
    next
      case False
      with a assms(9) show ?thesis by (auto split: if_splits)
    qed
    with assms(8) show "c = Done (calls s' x)" by simp
  next
    show "shutdown s = (receiver s' = Terminated)"
      using assms(2,12) by simp
  next
    show "\<not> shutdown s" by (rule assms(2))
  next
    fix c assume a: "nchans s \<le> c"
    then have "buf (chans s c) = []" by (rule d(10))
    moreover have "c \<noteq> Done (calls s q)"
      using d(11) [OF assms(3)] a by simp
    ultimately show "buf (chans s' c) = []"
      using assms(9) by simp
  next
    fix p assume "p < ncalls s"
    then have "Done (calls s p) < nchans s" by (rule d(11))
    with assms(8) show "Done (calls s' p) < nchans s" by simp
  qed
  with delq delx show ?thesis by blast
qed

lemma safe_GoRejected:
  assumes "safe s" and g: "Go_call m ar r dn s = Inr (p, s1)"
    and v: "\<forall>d. dn = Some d \<longrightarrow> d < nchans s"
    and s': "s' = call_done p (set_Error p ErrShutdown s1)"
  shows "safe s' \<and> deliveries s' p = 1 \<and> (\<forall>q. q \<noteq> p \<longrightarrow> deliveries s' q = deliveries s q)"
proof -
  note d = safeD [OF assms(1)]
  note e = Go_call_Inr [OF g]
  define dd where "dd = (case dn of None \<Rightarrow> nchans s | Some d \<Rightarrow> d)"
  have p: "p = ncalls s" using e by simp
  have f1: "pending s' = pending s" "ncalls s' = Suc (ncalls s)" "receiver s' = receiver s"
    "shutdown s' = shutdown s" "sending s' = sending s"
    using e by (simp_all add: s')
  have f4: "Done (calls s' q) = (if q = p then dd else Done (calls s q))" for q
    using e by (simp add: s' dd_def)
  have empty: "buf (chans s (nchans s)) = []" by (rule d(10)) simp
  have f5: "buf (chans s' c) = (if c = dd then buf (chans s c) @ [p] else buf (chans s c))" for c
    using e empty by (auto simp: s' dd_def call_done_chans set_Error_calls split: option.splits)
  have f6: "nchans s \<le> nchans s'" "dd < nchans s'"
    using e v by (auto simp: s' dd_def split: option.splits)
  have fresh: "p \<notin> set (buf (chans s c))" for c
    using fresh_call_undelivered [OF assms(1)] p by simp
  have delp: "deliveries s' p = 1"
    using fresh by (simp add: deliveries_def f4 f5)
  have delq: "deliveries s' q = deliveries s q" if "q \<noteq> p" for q
    using that by (simp add: deliveries_def f4 f5)
  have "safe s'"
    unfolding safe_def f1
  proof (intro conjI allI impI)
    fix k q assume "pending s k = Some q"
    then show "q < Suc (ncalls s)" using d(1) less_Suc_eq by blast
  next
    fix k k' q assume "pending s k = Some q \<and> pending s k' = Some q"
    then show "k = k'" using d(2) by blast
  next
    fix h q assume "receiver s = Removed h (Some q)"
    then show "q < Suc (ncalls s)" using d(3) less_Suc_eq by blast
  next
    fix h q k assume "receiver s = Removed h (Some q)"
    then show "pending s k \<noteq> Some q" using d(3) by blast
  next
    fix k q assume a: "\<not> shutdown s" "pending s k = Some q"
    then have "q \<noteq> p" using d(1) p by blast
    with a d(4) show "deliveries s' q = 0" by (simp add: delq)
  next
    fix h q assume a: "\<not> shutdown s" "receiver s = Removed h (Some q)"
    then have "q \<noteq> p" using d(3) p by blast
    with a d(5) show "deliveries s' q = 0" by (simp add: delq)
  next
    fix q show "deliveries s' q \<le> 1"
      using delp delq [of q] d(6) [of q] by (cases "q = p") simp_all
  next
    fix c q assume "q \<in> set (buf (chans s' c))"
    then have "q \<in> set (buf (chans s c)) \<or> q = p"
      by (auto simp: f5 split: if_splits)
    then show "q < Suc (ncalls s)" using d(7) p less_Suc_eq by blast
  next
    fix c q assume a: "q \<in> set (buf (chans s' c))"
    show "c = Done (calls s' q)"
    proof (cases "q = p")
      case True
      with a fresh have "c = dd" by (auto simp: f5 split: if_splits)
      with True show ?thesis by (simp add: f4)
    next
      case False
      with a have "q \<in> set (buf (chans s c))" by (auto simp: f5 split: if_splits)
      then have "c = Done (calls s q)" using d(7) by blast
      with False show ?thesis by (simp add: f4)
    qed
  next
    show "shutdown s = (receiver s = Terminated)" by (rule d(8))
  next
    assume "sending s \<noteq> Unlocked"
    then show "\<not> shutdown s" by (rule d(9))
  next
    fix c assume a: "nchans s' \<le> c"
    with f6 have "nchans s \<le> c" "c \<noteq> dd" by simp_all
    with d(10) show "buf (chans s' c) = []" by (simp add: f5)
  next
    fix q assume "q < Suc (ncalls s)"
    then have "q = p \<or> q < ncalls s" using p by auto
    then show "Done (calls s' q) < nchans s'"
      using f6 d(11) [of q] p by (auto simp: f4)
  qed
  with delp delq show ?thesis by blast
qed


lemma safe_GoRegistered:
  assumes "safe s" and g: "Go_call m ar r dn s = Inr (p, s1)"
    and v: "\<forall>d. dn = Some d \<longrightarrow> d < nchans s" and ns: "\<not> shutdown s"
    and s': "s' = s1\<lparr>calls := (calls s1)(p := (calls s1 p)\<lparr>Seq := seq s\<rparr>),
               pending := (pending s)(seq s \<mapsto> p), seq := seq s + 1,
               sending := Registered p (seq s)\<rparr>"
  shows "safe s' \<and> (\<forall>q. deliveries s' q = deliveries s q)"
proof -
  note d = safeD [OF assms(1)]
  note e = Go_call_Inr [OF g]
  define dd where "dd = (case dn of None \<Rightarrow> nchans s | Some d \<Rightarrow> d)"
  have p: "p = ncalls s" using e by simp
  have f1: "pending s' = (pending s)(seq s \<mapsto> p)" "ncalls s' = Suc (ncalls s)"
    "receiver s' = receiver s" "shutdown s' = shutdown s" "sending s' = Registered p (seq s)"
    using e by (simp_all add: s')
  have f4: "Done (calls s' q) = (if q = p then dd else Done (calls s q))" for q
    using e by (simp add: s' dd_def)
  have empty: "buf (chans s (nchans s)) = []" by (rule d(10)) simp
  have f5: "buf (chans s' c) = buf (chans s c)" for c
    using e empty by (auto simp: s' split: option.splits)
  have f6: "nchans s \<le> nchans s'" "dd < nchans s'"
    using e v by (auto simp: s' dd_def split: option.splits)
  have fresh: "p \<notin> set (buf (chans s c))" for c
    using fresh_call_undelivered [OF assms(1)] p by simp
  have old: "q \<noteq> p" if "pending s k = Some q" for k q
    using d(1) [OF that] p by simp
  have delp: "deliveries s' p = 0"
    using fresh by (simp add: deliveries_def f4 f5)
  have delq: "deliveries s' q = deliveries s q" for q
  proof (cases "q = p")
    case True
    with delp fresh show ?thesis by (simp add: deliveries_def)
  next
    case False
    then show ?thesis by (simp add: deliveries_def f4 f5)
  qed
  have "safe s'"
    unfolding safe_def f1
  proof (intro conjI allI impI)
    fix k q assume "((pending s)(seq s \<mapsto> p)) k = Some q"
    then show "q < Suc (ncalls s)"
      using d(1) [of k q] p by (auto split: if_splits)
  next
    fix k k' q assume "((pending s)(seq s \<mapsto> p)) k = Some q \<and> ((pending s)(seq s \<mapsto> p)) k' = Some q"
    then show "k = k'"
      using d(2) [of k q k'] old [of k] old [of k'] by (auto split: if_splits)
  next
    fix h q assume "receiver s = Removed h (Some q)"
    then show "q < Suc (ncalls s)" using d(3) less_Suc_eq by blast
  next
    fix h q k assume a: "receiver s = Removed h (Some q)"
    then have "q < ncalls s" "pending s k \<noteq> Some q" using d(3) by blast+
    then show "((pending s)(seq s \<mapsto> p)) k \<noteq> Some q"
      using p by auto
  next
    fix k q assume a: "\<not> shutdown s" "((pending s)(seq s \<mapsto> p)) k = Some q"
    then have "q = p \<or> pending s k = Some q" by (auto split: if_splits)
    then show "deliveries s' q = 0"
      using delp d(4) [OF a(1), of k q] by (auto simp: delq)
  next
    fix h q assume a: "\<not> shutdown s" "receiver s = Removed h (Some q)"
    with d(5) show "deliveries s' q = 0" by (simp add: delq)
  next
    fix q show "deliveries s' q \<le> 1"
      using d(6) [of q] by (simp add: delq)
  next
    fix c q assume "q \<in> set (buf (chans s' c))"
    then have "q \<in> set (buf (chans s c))" by (simp add: f5)
    then show "q < Suc (ncalls s)" using d(7) less_Suc_eq by blast
  next
    fix c q assume a: "q \<in> set (buf (chans s' c))"
    then have b: "q \<in> set (buf (chans s c))" by (simp add: f5)
    then have "c = Done (calls s q)" "q \<noteq> p" using d(7) [OF b] p by auto
    then show "c = Done (calls s' q)" by (simp add: f4)
  next
    show "shutdown s = (receiver s = Terminated)" by (rule d(8))
  next
    show "\<not> shutdown s" by (rule ns)
  next
    fix c assume a: "nchans s' \<le> c"
    with f6 have "nchans s \<le> c" by simp
    with d(10) show "buf (chans s' c) = []" by (simp add: f5)
  next
    fix q assume "q < Suc (ncalls s)"
    then have "q = p \<or> q < ncalls s" using p by auto
    then show "Done (calls s' q) < nchans s'"
      using f6 d(11) [of q] p by (auto simp: f4)
  qed
  with delq show ?thesis by blast
qed


lemma deliveries_shutdown [simp]: "deliveries (s\<lparr>shutdown := b\<rparr>) p = deliveries s p"
  by (simp add: deliveries_def)

lemma safe_Terminate:
  assumes "safe s" and "receiver s = Exited e" and "sending s = Unlocked"
    and en: "enumerates order (pending s)"
    and s': "s' = (sweep err order (s\<lparr>shutdown := True\<rparr>))\<lparr>receiver := Terminated\<rparr>"
  shows "safe s' \<and>
    (\<forall>p. deliveries s' p = deliveries s p + (if \<exists>k. pending s k = Some p then 1 else 0))"
proof -
  note d = safeD [OF assms(1)]
  let ?s0 = "s\<lparr>shutdown := True\<rparr>"
  have ns: "\<not> shutdown s" using d(8) assms(2) by simp
  have f: "pending s' = pending s" "ncalls s' = ncalls s" "shutdown s'" "receiver s' = Terminated"
    "sending s' = Unlocked" "nchans s' = nchans s"
    using assms(3) by (simp_all add: s')
  have dn: "Done (calls s' q) = Done (calls s q)" for q
    by (simp add: s')
  have ch: "chans s' = chans (sweep err order ?s0)"
    by (simp add: s')
  have del0: "deliveries s' p =
      deliveries s p + length (filter (\<lambda>k. pending s k = Some p) order)" for p
  proof -
    have "deliveries s' p = deliveries (sweep err order ?s0) p"
      by (simp add: deliveries_def s')
    then show ?thesis by (simp add: sweep_deliveries)
  qed
  have inj: "\<forall>k k'. pending s k = Some p \<and> pending s k' = Some p \<longrightarrow> k = k'" for p
    using d(2) by blast
  have del: "deliveries s' p = deliveries s p + (if \<exists>k. pending s k = Some p then 1 else 0)" for p
  proof (cases "\<exists>k. pending s k = Some p")
    case True
    then obtain k where k: "pending s k = Some p" by blast
    with en have "k \<in> set order" by (auto simp: enumerates_def)
    from filter_key_eq_1 [OF _ inj this k] en True show ?thesis
      by (simp add: del0 enumerates_def)
  next
    case False
    then show ?thesis by (simp add: del0)
  qed
  have "safe s'"
    unfolding safe_def f(1,2,6)
  proof (intro conjI allI impI)
    fix k p assume "pending s k = Some p"
    then show "p < ncalls s" by (rule d(1))
  next
    fix k k' p assume "pending s k = Some p \<and> pending s k' = Some p"
    then show "k = k'" using d(2) by blast
  next
    fix h p assume "receiver s' = Removed h (Some p)"
    with f(4) show "p < ncalls s" by simp
  next
    fix h p k assume "receiver s' = Removed h (Some p)"
    with f(4) show "pending s k \<noteq> Some p" by simp
  next
    fix k p assume "\<not> shutdown s'"
    with f(3) show "deliveries s' p = 0" by simp
  next
    fix h p assume "\<not> shutdown s'"
    with f(3) show "deliveries s' p = 0" by simp
  next
    fix p show "deliveries s' p \<le> 1"
    proof (cases "\<exists>k. pending s k = Some p")
      case True
      then have "deliveries s p = 0" using d(4) [OF ns] by blast
      with True show ?thesis by (simp add: del)
    next
      case False
      with d(6) [of p] show ?thesis by (simp add: del)
    qed
  next
    fix c q assume "q \<in> set (buf (chans s' c))"
    then have "q \<in> set (buf (chans (sweep err order ?s0) c))" by (simp add: ch)
    from sweep_buf [OF this] show "q < ncalls s"
      using d(1,7) by auto
  next
    fix c q assume "q \<in> set (buf (chans s' c))"
    then have "q \<in> set (buf (chans (sweep err order ?s0) c))" by (simp add: ch)
    from sweep_buf [OF this] have "c = Done (calls s q)"
      using d(7) by auto
    then show "c = Done (calls s' q)" by (simp add: dn)
  next
    show "shutdown s' = (receiver s' = Terminated)" using f by simp
  next
    assume "sending s' \<noteq> Unlocked"
    with f(5) show "\<not> shutdown s'" by simp
  next
    fix c assume a: "nchans s \<le> c"
    have "buf (chans (sweep err order ?s0) c) = []"
    proof (rule sweep_buf_unmade)
      show "buf (chans ?s0 c) = []" using d(10) [OF a] by simp
      show "\<forall>k p. pending ?s0 k = Some p \<longrightarrow> Done (calls ?s0 p) \<noteq> c"
        using d(1,11) a by fastforce
    qed
    then show "buf (chans s' c) = []" by (simp add: ch)
  next
    fix p assume "p < ncalls s"
    then show "Done (calls s' p) < nchans s" using d(11) by (simp add: dn)
  qed
  with del show ?thesis by blast
qed

lemma safe_frame0:
  assumes "safe s"
    and "pending s' = pending s"
    and "ncalls s' = ncalls s" and "shutdown s' = shutdown s"
    and "\<forall>c. buf (chans s' c) = buf (chans s c)"
    and "\<forall>p. Done (calls s' p) = Done (calls s p)"
    and "\<forall>h x. receiver s' = Removed h (Some x) \<longrightarrow> receiver s = Removed h (Some x)"
    and "receiver s' = Terminated \<longleftrightarrow> receiver s = Terminated"
    and "sending s' \<noteq> Unlocked \<longrightarrow> sending s \<noteq> Unlocked"
    and "nchans s \<le> nchans s'"
  shows "safe s'"
proof -
  have "\<forall>h x. receiver s' = Removed h (Some x) \<longrightarrow>
      (receiver s = Removed h (Some x) \<or> (\<exists>k. pending s k = Some x)) \<and>
      (\<forall>k. pending s' k \<noteq> Some x)"
    using assms(7) safeD(3) [OF assms(1)] by (simp add: assms(2))
  from safe_frame [OF assms(1) _ assms(3-6) this assms(8-10)] show ?thesis
    by (simp add: assms(2))
qed

lemma safe_step:
  assumes "safe s" and "step a s = Some s'"
  shows "safe s'"
  using assms(2)
proof (cases rule: step_cases)
  case (MakeChan n)
  have "buf (chans s (nchans s)) = []"
    by (rule safeD(10) [OF assms(1)]) simp
  then show ?thesis
    by (intro safe_frame0 [OF assms(1)]) (simp_all add: MakeChan)
next
  case (GoPanic m ar r d)
  with assms(1) show ?thesis by simp
next
  case (GoRejected m ar r dn p s1)
  from safe_GoRejected [OF assms(1) GoRejected(2,3,6)] show ?thesis by simp
next
  case (GoRegistered m ar r dn p s1)
  from safe_GoRegistered [OF assms(1) GoRegistered(2,3,6,7)] show ?thesis by simp
next
  case (WriteOk p sq h c)
  show ?thesis
    by (rule safe_frame0 [OF assms(1)]) (simp_all add: WriteOk)
next
  case (WriteFail p sq h c e)
  show ?thesis
    by (rule safe_frame0 [OF assms(1)]) (simp_all add: WriteFail)
next
  case (CleanupNone p sq e)
  have "(pending s)(sq := None) = pending s"
    using CleanupNone(3) by (simp add: fun_upd_idem)
  then show ?thesis
    by (intro safe_frame0 [OF assms(1)]) (simp_all add: CleanupNone)
next
  case (CleanupSome p sq e q)
  note d = safeD [OF assms(1)]
  have ns: "\<not> shutdown s" by (rule d(9)) (simp add: CleanupSome)
  have "safe s' \<and> deliveries s' q = 1 \<and> (\<forall>x. x \<noteq> q \<longrightarrow> deliveries s' x = deliveries s x)"
  proof (rule safe_deliver [OF assms(1) ns])
    show "q < ncalls s" using d(1) CleanupSome(3) by blast
    show "deliveries s q = 0" using d(4) [OF ns] CleanupSome(3) by blast
    show "\<forall>k x. pending s' k = Some x \<longrightarrow> pending s k = Some x \<and> x \<noteq> q"
      using d(2) [OF CleanupSome(3)] by (auto simp: CleanupSome(4) split: if_splits)
    show "\<forall>h x. receiver s' = Removed h (Some x) \<longrightarrow> receiver s = Removed h (Some x) \<and> x \<noteq> q"
      using d(3) CleanupSome(3) by (auto simp: CleanupSome(4))
    show "receiver s' \<noteq> Terminated" using d(8) ns by (simp add: CleanupSome(4))
  qed (simp_all add: CleanupSome(4) call_done_chans set_Error_calls)
  then show ?thesis by simp
next
  case CloseShutdown
  with assms(1) show ?thesis by simp
next
  case Close
  show ?thesis
    by (rule safe_frame0 [OF assms(1)]) (simp_all add: Close)
next
  case (HeaderErr e c)
  show ?thesis
    by (rule safe_frame0 [OF assms(1)]) (simp_all add: HeaderErr)
next
  case (HeaderOk h c)
  show ?thesis
    by (rule safe_frame0 [OF assms(1)]) (simp_all add: HeaderOk)
next
  case (Remove h)
  note d = safeD [OF assms(1)]
  have "safe s' \<and> (\<forall>p. deliveries s' p = deliveries s p)"
  proof (rule safe_frame [OF assms(1)])
    show "\<forall>h' x. receiver s' = Removed h' (Some x) \<longrightarrow>
        (receiver s = Removed h' (Some x) \<or> (\<exists>k. pending s k = Some x)) \<and>
        (\<forall>k. pending s' k \<noteq> Some x)"
      using d(2) by (auto simp: Remove(3))
  qed (simp_all add: Remove)
  then show ?thesis by simp
next
  case (Body h co eo s1)
  note d = safeD [OF assms(1)]
  note e = receive_dispatch_effect [OF Body(3)]
  have ns: "\<not> shutdown s" using d(8) Body(2) by simp
  show ?thesis
  proof (cases co)
    case None
    show ?thesis
      by (rule safe_frame0 [OF assms(1)])
        (use e None Body(2) in \<open>auto simp: Body(4) split: option.splits\<close>)
  next
    case (Some p)
    have "safe s' \<and> deliveries s' p = 1 \<and> (\<forall>x. x \<noteq> p \<longrightarrow> deliveries s' x = deliveries s x)"
    proof (rule safe_deliver [OF assms(1) ns])
      show "p < ncalls s" using d(3) Body(2) Some by blast
      show "deliveries s p = 0" using d(5) [OF ns] Body(2) Some by blast
      show "\<forall>k x. pending s' k = Some x \<longrightarrow> pending s k = Some x \<and> x \<noteq> p"
        using d(3) Body(2) Some e by (auto simp: Body(4))
      show "\<forall>c. buf (chans s' c) =
          (if c = Done (calls s p) then buf (chans s c) @ [p] else buf (chans s c))"
        using e Some by (simp add: Body(4) call_done_chans)
    qed (use e in \<open>auto simp: Body(4) split: option.splits\<close>)
    then show ?thesis by simp
  qed
next
  case (Terminate order e)
  from safe_Terminate [OF assms(1) Terminate(2,3,4,5)] show ?thesis by simp
qed

lemma safe_newClientCodec: "safe (newClientCodec c)"
  by (simp add: safe_def newClientCodec_def deliveries_def)

lemma safe_exec:
  assumes "exec sched (newClientCodec c) = Some s"
  shows "safe s"
  using assms
proof (induction rule: exec_induct)
  case start
  show ?case by (rule safe_newClientCodec)
next
  case (step a t t')
  then show ?case by (rule safe_step)
qed

section \<open>The sweep of \<open>terminateCalls\<close>\<close>

lemma sweep_calls_unchanged:
  "\<forall>k \<in> set ks. pending s k \<noteq> Some p \<Longrightarrow> calls (sweep err ks s) p = calls s p"
proof (induction ks arbitrary: s)
  case Nil
  show ?case by simp
next
  case (Cons k ks)
  show ?case
  proof (cases "pending s k")
    case None
    with Cons show ?thesis by simp
  next
    case (Some q)
    with Cons.prems have "q \<noteq> p" by auto
    with Cons Some show ?thesis by (simp add: set_Error_calls)
  qed
qed

lemma sweep_Error:
  "k \<in> set ks \<Longrightarrow> pending s k = Some p \<Longrightarrow> Error (calls (sweep err ks s) p) = Some err"
proof (induction ks arbitrary: s k)
  case Nil
  then show ?case by simp
next
  case (Cons k' ks)
  let ?s1 = "case pending s k' of None \<Rightarrow> s | Some q \<Rightarrow> call_done q (set_Error q err s)"
  have pend: "pending ?s1 = pending s" by (simp split: option.splits)
  show ?case
  proof (cases "k \<in> set ks")
    case True
    from Cons.IH [OF True, of ?s1] Cons.prems(2) show ?thesis
      by (simp add: pend)
  next
    case False
    with Cons.prems have k: "k' = k" by simp
    show ?thesis
    proof (cases "\<exists>j \<in> set ks. pending s j = Some p")
      case True
      then obtain j where "j \<in> set ks" "pending ?s1 j = Some p" by (auto simp: pend)
      from Cons.IH [OF this] show ?thesis by simp
    next
      case False
      then have "\<forall>j \<in> set ks. pending ?s1 j \<noteq> Some p" by (simp add: pend)
      from sweep_calls_unchanged [OF this] Cons.prems(2) k show ?thesis
        by (simp add: set_Error_calls)
    qed
  qed
qed

text \<open>
  Claim C1, as the source has it.  In a state \<open>s\<close> that a client can reach, let the
  receiver run \<open>terminateCalls\<close>.  Then its loop has exited with a read error, of
  text \<open>e\<close>.  Afterwards \<open>shutdown\<close> is set; every call that was in the pending
  table has the error \<open>e\<close> of the codec, had not been delivered before and has been
  delivered exactly once now; every other call is what it was and has been delivered as
  often as before; and the pending table is what it was: the sweep removes no entry.
  The loop exits with the first read error: a header or a body that fails to decode
  takes the receiver out of the loop, and from there it reads no more.
\<close>

theorem terminateCalls_delivers_pending:
  assumes "exec sched (newClientCodec c) = Some s"
    and "step (RecvTerminate order) s = Some s'"
  shows "\<exists>e. receiver s = Exited e \<and> shutdown s' \<and> receiver s' = Terminated \<and>
    (\<forall>k p. pending s k = Some p \<longrightarrow>
       Error (calls s' p) = Some (CodecError e) \<and> deliveries s p = 0 \<and> deliveries s' p = 1) \<and>
    (\<forall>p. (\<forall>k. pending s k \<noteq> Some p) \<longrightarrow>
       calls s' p = calls s p \<and> deliveries s' p = deliveries s p) \<and>
    pending s' = pending s \<and>
    step RecvHeader s = None \<and> step RecvRemove s = None \<and> step RecvBody s = None \<and>
    (\<forall>t e' c'. receiver t = ReadingHeader \<and> JsonCodec_ReadHeader (cc t) = (Inl e', c') \<longrightarrow>
       step RecvHeader t = Some (t\<lparr>cc := c', receiver := Exited e'\<rparr>)) \<and>
    (\<forall>t h co e' t1. receiver t = Removed h co \<and> receive_dispatch h co t = (Some e', t1) \<longrightarrow>
       step RecvBody t = Some (t1\<lparr>receiver := Exited e'\<rparr>))"
proof -
  have safe: "safe s" using assms(1) by (rule safe_exec)
  note d = safeD [OF safe]
  from assms(2) obtain e where ex: "receiver s = Exited e" and un: "sending s = Unlocked"
    and en: "enumerates order (pending s)"
    and s': "s' = (sweep (CodecError e) order (s\<lparr>shutdown := True\<rparr>))\<lparr>receiver := Terminated\<rparr>"
    by (cases rule: step_cases) simp_all
  have ns: "\<not> shutdown s" using d(8) ex by simp
  note t = safe_Terminate [OF safe ex un en s']
  have pend: "Error (calls s' p) = Some (CodecError e) \<and> deliveries s p = 0 \<and> deliveries s' p = 1"
    if "pending s k = Some p" for k p
  proof -
    from that en have "k \<in> set order" by (auto simp: enumerates_def)
    from sweep_Error [OF this, of "s\<lparr>shutdown := True\<rparr>" p "CodecError e"] that
    have "Error (calls s' p) = Some (CodecError e)" by (simp add: s')
    moreover have "deliveries s p = 0" using d(4) [OF ns that] .
    moreover from t that have "deliveries s' p = deliveries s p + 1" by auto
    ultimately show ?thesis by simp
  qed
  have other: "calls s' p = calls s p \<and> deliveries s' p = deliveries s p"
    if "\<forall>k. pending s k \<noteq> Some p" for p
  proof -
    from that have "\<forall>k \<in> set order. pending (s\<lparr>shutdown := True\<rparr>) k \<noteq> Some p" by simp
    from sweep_calls_unchanged [OF this] have "calls s' p = calls s p" by (simp add: s')
    moreover from t that have "deliveries s' p = deliveries s p" by auto
    ultimately show ?thesis by simp
  qed
  have "shutdown s'" "receiver s' = Terminated" "pending s' = pending s"
    by (simp_all add: s')
  moreover have "step RecvHeader s = None" "step RecvRemove s = None" "step RecvBody s = None"
    using ex by simp_all
  moreover have "step RecvHeader t = Some (t\<lparr>cc := c', receiver := Exited e'\<rparr>)"
    if "receiver t = ReadingHeader \<and> JsonCodec_ReadHeader (cc t) = (Inl e', c')" for t e' c'
    using that by simp
  moreover have "step RecvBody t = Some (t1\<lparr>receiver := Exited e'\<rparr>)"
    if "receiver t = Removed h co \<and> receive_dispatch h co t = (Some e', t1)" for t h co e' t1
    using that by simp
  ultimately show ?thesis
    using ex pend other by blast
qed

lemmas run_defs =
  newClientCodec_def quiet_conn_def Go_call_def make_chan_def new_Call_def send_register_def
  registerCall_def send_write_def send_cleanup_def removeCall_def JsonCodec_Write_def
  JsonCodec_ReadHeader_def JsonCodec_ReadBody_def JsonCodec_Close_def receive_dispatch_def
  enumerates_def terminateCalls_def call_done_def set_Error_def deliveries_def Close_def Let_def

theorem terminateCalls_delivers_pending_witness:
  "exec [GoRegister ''Foo.Sum'' (Str ''req-1'') '''' None, SendWrite, RecvHeader]
     (newClientCodec quiet_conn) = Some one_pending \<and>
   step (RecvTerminate [1]) one_pending = Some (the (step (RecvTerminate [1]) one_pending)) \<and>
   pending one_pending 1 = Some 0 \<and>
   shutdown (the (step (RecvTerminate [1]) one_pending)) \<and>
   Error (calls (the (step (RecvTerminate [1]) one_pending)) 0) = Some (CodecError ''EOF'') \<and>
   deliveries (the (step (RecvTerminate [1]) one_pending)) 0 = 1"
proof -
  have 1: "exec [GoRegister ''Foo.Sum'' (Str ''req-1'') '''' None, SendWrite, RecvHeader]
     (newClientCodec quiet_conn) = Some one_pending"
    by (simp add: run_defs one_pending_def)
  have 2: "step (RecvTerminate [1]) one_pending = Some (the (step (RecvTerminate [1]) one_pending))"
    by (simp add: run_defs one_pending_def)
  have 3: "pending one_pending 1 = Some 0"
    by (simp add: one_pending_def)
  from terminateCalls_delivers_pending [OF 1 2] 1 2 3 show ?thesis
    by (simp add: one_pending_def)
qed

text \<open>
  The claim says that the sweep then clears the pending table.  After the sweep of the
  one pending call above, the call is still in the table under its sequence number.
\<close>

theorem sweep_keeps_pending_counterexample:
  "exec [GoRegister ''Foo.Sum'' (Str ''req-1'') '''' None, SendWrite, RecvHeader,
         RecvTerminate [1]] (newClientCodec quiet_conn) =
     Some (the (step (RecvTerminate [1]) one_pending)) \<and>
   shutdown (the (step (RecvTerminate [1]) one_pending)) \<and>
   receiver (the (step (RecvTerminate [1]) one_pending)) = Terminated \<and>
   deliveries (the (step (RecvTerminate [1]) one_pending)) 0 = 1 \<and>
   pending (the (step (RecvTerminate [1]) one_pending)) 1 = Some 0"
proof -
  have 1: "exec [GoRegister ''Foo.Sum'' (Str ''req-1'') '''' None, SendWrite, RecvHeader]
     (newClientCodec quiet_conn) = Some one_pending"
    by (simp add: run_defs one_pending_def)
  have "exec ([GoRegister ''Foo.Sum'' (Str ''req-1'') '''' None, SendWrite, RecvHeader] @
      [RecvTerminate [1]]) (newClientCodec quiet_conn) =
      Some (the (step (RecvTerminate [1]) one_pending))"
    unfolding exec_append 1 by (simp add: run_defs one_pending_def)
  then show ?thesis
    by (simp add: run_defs one_pending_def)
qed

section \<open>A call whose registration or write fails\<close>

lemma deliveries_mono_step:
  assumes "safe s" and "step a s = Some s'"
  shows "deliveries s p \<le> deliveries s' p"
  using assms(2)
proof (cases rule: step_cases)
  case (MakeChan n)
  have "buf (chans s (nchans s)) = []"
    by (rule safeD(10) [OF assms(1)]) simp
  then show ?thesis by (simp add: MakeChan deliveries_def)
next
  case (GoPanic m ar r d)
  then show ?thesis by simp
next
  case (GoRejected m ar r dn q s1)
  have "deliveries s q = 0"
    using fresh_call_undelivered [OF assms(1), of q] Go_call_Inr [OF GoRejected(2)]
    by (simp add: deliveries_def)
  with safe_GoRejected [OF assms(1) GoRejected(2,3,6)] show ?thesis
    by (cases "p = q") simp_all
next
  case (GoRegistered m ar r dn q s1)
  from safe_GoRegistered [OF assms(1) GoRegistered(2,3,6,7)] show ?thesis by simp
next
  case (WriteOk q sq h c)
  then show ?thesis by (simp add: deliveries_def)
next
  case (WriteFail q sq h c e)
  then show ?thesis by (simp add: deliveries_def)
next
  case (CleanupNone q sq e)
  then show ?thesis by (simp add: deliveries_def)
next
  case (CleanupSome q' sq e q)
  then show ?thesis
    by (simp add: deliveries_def call_done_chans set_Error_calls)
next
  case CloseShutdown
  then show ?thesis by simp
next
  case Close
  then show ?thesis by (simp add: deliveries_def)
next
  case (HeaderErr e c)
  then show ?thesis by (simp add: deliveries_def)
next
  case (HeaderOk h c)
  then show ?thesis by (simp add: deliveries_def)
next
  case (Remove h)
  then show ?thesis by (simp add: deliveries_def)
next
  case (Body h co eo s1)
  note e = receive_dispatch_effect [OF Body(3)]
  then show ?thesis
    by (cases co) (simp_all add: Body(4) deliveries_def call_done_chans)
next
  case (Terminate order e)
  from safe_Terminate [OF assms(1) Terminate(2,3,4,5)] show ?thesis by simp
qed

lemma Body_delivers:
  assumes "safe s" and "receiver s = Removed h (Some p)" and "receive_dispatch h (Some p) s = (eo, s1)"
  shows "deliveries (s1\<lparr>receiver := r\<rparr>) p = 1"
proof -
  note d = safeD [OF assms(1)]
  note e = receive_dispatch_effect [OF assms(3)]
  have "\<not> shutdown s" using d(8) assms(2) by simp
  then have "deliveries s p = 0" using d(5) assms(2) by blast
  with e show ?thesis
    by (simp add: deliveries_def call_done_chans)
qed

lemma in_flight_step:
  assumes "safe s" and "in_flight s" and "step a s = Some s'"
  shows "in_flight s'"
proof -
  note d = safeD [OF assms(1)]
  have s': "safe s'" using assms(1,3) by (rule safe_step)
  have mono: "deliveries s' p = 1" if "deliveries s p = 1" for p
    using deliveries_mono_step [OF assms(1,3), of p] safeD(6) [OF s', of p] that by simp
  from assms(3) show ?thesis
  proof (cases rule: step_cases)
    case (MakeChan n)
    with assms(2) mono show ?thesis unfolding in_flight_def by simp blast
  next
    case (GoPanic m ar r d)
    with assms(2) show ?thesis by simp
  next
    case (GoRejected m ar r dn q s1)
    with Go_call_Inr [OF GoRejected(2)] show ?thesis by (simp add: in_flight_def)
  next
    case (GoRegistered m ar r dn q s1)
    then show ?thesis by (simp add: in_flight_def)
  next
    case (WriteOk q sq h c)
    then show ?thesis by (simp add: in_flight_def)
  next
    case (WriteFail q sq h c e)
    with assms(2) mono show ?thesis unfolding in_flight_def by simp blast
  next
    case (CleanupNone q sq e)
    then show ?thesis by (simp add: in_flight_def)
  next
    case (CleanupSome q' sq e q)
    then show ?thesis by (simp add: in_flight_def)
  next
    case CloseShutdown
    with assms(2) show ?thesis by simp
  next
    case Close
    with assms(2) mono show ?thesis unfolding in_flight_def by simp blast
  next
    case (HeaderErr e c)
    with assms(2) mono show ?thesis unfolding in_flight_def by simp blast
  next
    case (HeaderOk h c)
    with assms(2) mono show ?thesis unfolding in_flight_def by simp blast
  next
    case (Remove h)
    show ?thesis
      unfolding in_flight_def
    proof (intro allI impI)
      fix p sq
      assume a: "sending s' = Registered p sq \<or> (\<exists>e. sending s' = WriteFailed p sq e)"
      then have "sending s = Registered p sq \<or> (\<exists>e. sending s = WriteFailed p sq e)"
        by (simp add: Remove)
      with assms(2) have "pending s sq = Some p \<or>
          (pending s sq = None \<and> (deliveries s p = 1 \<or> (\<exists>h. receiver s = Removed h (Some p))))"
        unfolding in_flight_def by blast
      then show "pending s' sq = Some p \<or>
          (pending s' sq = None \<and> (deliveries s' p = 1 \<or> (\<exists>h. receiver s' = Removed h (Some p))))"
        using mono [of p] Remove(2) by (auto simp: Remove(3))
    qed
  next
    case (Body h co eo s1)
    note e = receive_dispatch_effect [OF Body(3)]
    show ?thesis
      unfolding in_flight_def
    proof (intro allI impI)
      fix p sq
      assume a: "sending s' = Registered p sq \<or> (\<exists>e. sending s' = WriteFailed p sq e)"
      then have "sending s = Registered p sq \<or> (\<exists>e. sending s = WriteFailed p sq e)"
        using e by (simp add: Body(4))
      with assms(2) have "pending s sq = Some p \<or>
          (pending s sq = None \<and> (deliveries s p = 1 \<or> (\<exists>h. receiver s = Removed h (Some p))))"
        unfolding in_flight_def by blast
      moreover have "deliveries s' p = 1" if "receiver s = Removed h' (Some p)" for h'
      proof -
        from that Body(2) have "co = Some p" by simp
        with Body_delivers [OF assms(1) that] Body(2,3) that show ?thesis
          by (simp add: Body(4))
      qed
      moreover have "pending s' = pending s" using e by (simp add: Body(4))
      ultimately show "pending s' sq = Some p \<or>
          (pending s' sq = None \<and> (deliveries s' p = 1 \<or> (\<exists>h. receiver s' = Removed h (Some p))))"
        using mono [of p] by auto
    qed
  next
    case (Terminate order e)
    then show ?thesis by (simp add: in_flight_def)
  qed
qed

lemma in_flight_exec:
  assumes "exec sched (newClientCodec c) = Some s"
  shows "safe s \<and> in_flight s"
  using assms
proof (induction rule: exec_induct)
  case start
  have "in_flight (newClientCodec c)" by (simp add: in_flight_def newClientCodec_def)
  with safe_newClientCodec show ?case by blast
next
  case (step a t t')
  then show ?case using safe_step in_flight_step by blast
qed


lemma Go_rejected:
  assumes "closing s \<or> shutdown s" and "Go_call m ar r dn s = Inr (p, s1)"
  shows "Go m ar r dn s = Inr (p, call_done p (set_Error p ErrShutdown s1))"
  using assms Go_call_Inr [OF assms(2)]
  by (simp add: Go_def send_def send_register_def registerCall_def)

text \<open>
  Claim C6, as the source has it.  In a state \<open>s\<close> that a client can reach:
  \<^item> A \<open>Go\<close> that finds \<open>closing\<close> or \<open>shutdown\<close> set delivers its call at once,
    with the error \<open>ErrShutdown\<close>; the codec is not touched, so no write is
    attempted, and the pending table is what it was.
  \<^item> After a \<open>Write\<close> that failed with the text \<open>e\<close>, \<open>send\<close> removes the entry
    of the call's sequence number from the pending table.  If the call was still
    there, it has not been delivered before and is delivered now, once, with the
    error \<open>e\<close> of the codec.  If it was not, the receiver has taken it in the
    meantime: the call has been delivered or is in the receiver's hands, and \<open>send\<close>
    delivers nothing.  In both cases the call is in the pending table no more.
  \<^item> When no other goroutine runs between the registration and the end of \<open>send\<close>,
    a \<open>Go\<close> whose write fails returns with the call delivered once with the error
    of the write and with no entry in the pending table.
\<close>

theorem Go_failure_paths:
  assumes "exec sched (newClientCodec c) = Some s"
  shows "((closing s \<or> shutdown s) \<and> sending s = Unlocked \<and>
      Go_call m ar r dn s = Inr (p, s1) \<and> (\<forall>d. dn = Some d \<longrightarrow> d < nchans s) \<longrightarrow>
        (\<exists>s'. step (GoRegister m ar r dn) s = Some s' \<and> Go m ar r dn s = Inr (p, s') \<and>
              Error (calls s' p) = Some ErrShutdown \<and> deliveries s' p = 1 \<and>
              cc s' = cc s \<and> pending s' = pending s \<and> sending s' = Unlocked)) \<and>
    (sending s = WriteFailed q sq e \<longrightarrow>
        (\<exists>s'. step SendCleanup s = Some s' \<and> sending s' = Unlocked \<and>
              pending s' sq = None \<and> (\<forall>k. pending s' k \<noteq> Some q) \<and>
              (pending s sq = Some q \<longrightarrow>
                 Error (calls s' q) = Some (CodecError e) \<and> deliveries s q = 0 \<and>
                 deliveries s' q = 1) \<and>
              (pending s sq \<noteq> Some q \<longrightarrow>
                 pending s sq = None \<and> calls s' = calls s \<and> chans s' = chans s \<and>
                 (deliveries s q = 1 \<or> (\<exists>h. receiver s = Removed h (Some q)))))) \<and>
    (\<not> closing s \<and> \<not> shutdown s \<and> sending s = Unlocked \<and>
      Go_call m ar r dn s = Inr (p, s1) \<and> (\<forall>d. dn = Some d \<longrightarrow> d < nchans s) \<and>
      wr_res (cc s) = Some e # rest \<longrightarrow>
        (\<exists>s'. exec [GoRegister m ar r dn, SendWrite, SendCleanup] s = Some s' \<and>
              Go m ar r dn s = Inr (p, s') \<and>
              Error (calls s' p) = Some (CodecError e) \<and> deliveries s' p = 1 \<and>
              (\<forall>k. pending s' k \<noteq> Some p)))"
proof -
  from in_flight_exec [OF assms] have safe: "safe s" and fl: "in_flight s" by simp_all
  note d = safeD [OF safe]
  have A: "\<exists>s'. step (GoRegister m ar r dn) s = Some s' \<and> Go m ar r dn s = Inr (p, s') \<and>
      Error (calls s' p) = Some ErrShutdown \<and> deliveries s' p = 1 \<and>
      cc s' = cc s \<and> pending s' = pending s \<and> sending s' = Unlocked"
    if a: "closing s \<or> shutdown s" "sending s = Unlocked" "Go_call m ar r dn s = Inr (p, s1)"
      "\<forall>d. dn = Some d \<longrightarrow> d < nchans s"
  proof -
    let ?s' = "call_done p (set_Error p ErrShutdown s1)"
    note g = Go_call_Inr [OF a(3)]
    have "step (GoRegister m ar r dn) s = Some ?s'"
      using a g by (auto simp: send_register_def registerCall_def split: option.splits)
    moreover have "Go m ar r dn s = Inr (p, ?s')" using a(1,3) by (rule Go_rejected)
    moreover have "deliveries ?s' p = 1"
      using safe_GoRejected [OF safe a(3,4) refl] by simp
    moreover have "Error (calls ?s' p) = Some ErrShutdown" by (simp add: set_Error_calls)
    ultimately show ?thesis using g a(2) by auto
  qed
  have B: "\<exists>s'. step SendCleanup s = Some s' \<and> sending s' = Unlocked \<and>
      pending s' sq = None \<and> (\<forall>k. pending s' k \<noteq> Some q) \<and>
      (pending s sq = Some q \<longrightarrow>
         Error (calls s' q) = Some (CodecError e) \<and> deliveries s q = 0 \<and> deliveries s' q = 1) \<and>
      (pending s sq \<noteq> Some q \<longrightarrow>
         pending s sq = None \<and> calls s' = calls s \<and> chans s' = chans s \<and>
         (deliveries s q = 1 \<or> (\<exists>h. receiver s = Removed h (Some q))))"
    if a: "sending s = WriteFailed q sq e"
  proof -
    have ns: "\<not> shutdown s" by (rule d(9)) (simp add: a)
    from fl a have cases: "pending s sq = Some q \<or>
        (pending s sq = None \<and> (deliveries s q = 1 \<or> (\<exists>h. receiver s = Removed h (Some q))))"
      unfolding in_flight_def by blast
    show ?thesis
    proof (cases "pending s sq = Some q")
      case True
      let ?s' = "(call_done q (set_Error q (CodecError e) (s\<lparr>pending := (pending s)(sq := None)\<rparr>)))
          \<lparr>sending := Unlocked\<rparr>"
      have st: "step SendCleanup s = Some ?s'"
        using a True by (simp add: send_cleanup_def removeCall_def)
      have 0: "deliveries s q = 0" using d(4) [OF ns True] .
      then have 1: "deliveries ?s' q = 1"
        by (simp add: deliveries_def call_done_chans set_Error_calls)
      have "pending ?s' k \<noteq> Some q" for k
        using d(2) [OF True, of k] by auto
      with st 0 1 True show ?thesis
        by (auto simp: set_Error_calls)
    next
      case False
      with cases have n: "pending s sq = None"
        and dl: "deliveries s q = 1 \<or> (\<exists>h. receiver s = Removed h (Some q))" by auto
      let ?s' = "s\<lparr>pending := (pending s)(sq := None), sending := Unlocked\<rparr>"
      have st: "step SendCleanup s = Some ?s'"
        using a n by (simp add: send_cleanup_def removeCall_def)
      have "pending s k \<noteq> Some q" for k
      proof
        assume k: "pending s k = Some q"
        from d(4) [OF ns k] d(3) [of _ q k] k dl show False by auto
      qed
      then have "pending ?s' k \<noteq> Some q" for k by simp
      with st n dl False show ?thesis by auto
    qed
  qed
  have C: "\<exists>s'. exec [GoRegister m ar r dn, SendWrite, SendCleanup] s = Some s' \<and>
      Go m ar r dn s = Inr (p, s') \<and>
      Error (calls s' p) = Some (CodecError e) \<and> deliveries s' p = 1 \<and>
      (\<forall>k. pending s' k \<noteq> Some p)"
    if a: "\<not> closing s" "\<not> shutdown s" "sending s = Unlocked" "Go_call m ar r dn s = Inr (p, s1)"
      "\<forall>d. dn = Some d \<longrightarrow> d < nchans s" "wr_res (cc s) = Some e # rest"
  proof -
    note g = Go_call_Inr [OF a(4)]
    have go: "Go m ar r dn s = Inr (p, send p s1)"
      using a(4) by (simp add: Go_def)
    have ex: "exec [GoRegister m ar r dn, SendWrite, SendCleanup] s = Some (send p s1)"
      using a g
      by (auto simp: send_def send_register_def registerCall_def send_write_def
          send_cleanup_def removeCall_def JsonCodec_Write_def JsonCodec_Close_def Let_def
          call_done_def set_Error_def
          split: option.splits list.splits intro!: state.equality)
    then have reach: "exec (sched @ [GoRegister m ar r dn, SendWrite, SendCleanup])
        (newClientCodec c) = Some (send p s1)"
      using assms by (simp add: exec_append)
    have safe': "safe (send p s1)" using reach by (rule safe_exec)
    have fresh: "p \<notin> set (buf (chans s x))" for x
      using fresh_call_undelivered [OF safe, of p x] g by simp
    have empty: "buf (chans s (nchans s)) = []" by (rule d(10)) simp
    have er: "Error (calls (send p s1) p) = Some (CodecError e)"
      using a g
      by (simp add: send_def send_register_def registerCall_def send_write_def
          send_cleanup_def removeCall_def JsonCodec_Write_def JsonCodec_Close_def Let_def
          set_Error_calls split: list.splits)
    have pd: "pending (send p s1) = (pending s)(seq s := None)"
      using a g
      by (simp add: send_def send_register_def registerCall_def send_write_def
          send_cleanup_def removeCall_def JsonCodec_Write_def JsonCodec_Close_def Let_def
          split: list.splits)
    have dl: "deliveries (send p s1) p = 1"
      using a g fresh empty
      by (auto simp: send_def send_register_def registerCall_def send_write_def
          send_cleanup_def removeCall_def JsonCodec_Write_def JsonCodec_Close_def Let_def
          deliveries_def call_done_chans set_Error_calls split: list.splits option.splits)
    have "pending (send p s1) k \<noteq> Some p" for k
    proof
      assume "pending (send p s1) k = Some p"
      then have "pending s k = Some p"
        unfolding pd by (simp split: if_splits)
      from d(1) [OF this] g show False by simp
    qed
    with go ex er dl show ?thesis by blast
  qed
  from A B C show ?thesis by blast
qed

theorem Go_failure_paths_witness:
  "exec [CallClose] (newClientCodec quiet_conn) = Some (snd (Close (newClientCodec quiet_conn))) \<and>
   closing (snd (Close (newClientCodec quiet_conn))) \<and>
   (\<exists>s'. Go ''Foo.Sum'' (Str ''req-1'') '''' None (snd (Close (newClientCodec quiet_conn))) =
           Inr (0, s') \<and>
         Error (calls s' 0) = Some ErrShutdown \<and> deliveries s' 0 = 1 \<and> wlog (cc s') = []) \<and>
   exec [GoRegister ''Foo.Sum'' (Str ''req-1'') '''' None, SendWrite] (newClientCodec race_conn) =
     Some (the (exec [GoRegister ''Foo.Sum'' (Str ''req-1'') '''' None, SendWrite]
       (newClientCodec race_conn))) \<and>
   sending (the (exec [GoRegister ''Foo.Sum'' (Str ''req-1'') '''' None, SendWrite]
       (newClientCodec race_conn))) = WriteFailed 0 1 ''write: broken pipe'' \<and>
   (\<exists>s'. step SendCleanup (the (exec [GoRegister ''Foo.Sum'' (Str ''req-1'') '''' None, SendWrite]
       (newClientCodec race_conn))) = Some s' \<and>
         Error (calls s' 0) = Some (CodecError ''write: broken pipe'') \<and>
         deliveries s' 0 = 1 \<and> pending s' 1 = None)"
proof -
  let ?S = "snd (Close (newClientCodec quiet_conn))"
  let ?T = "the (exec [GoRegister ''Foo.Sum'' (Str ''req-1'') '''' None, SendWrite]
       (newClientCodec race_conn))"
  have 1: "exec [CallClose] (newClientCodec quiet_conn) = Some ?S" by simp
  have 2: "closing ?S" "sending ?S = Unlocked"
    by (simp_all add: run_defs)
  have 3: "Go_call ''Foo.Sum'' (Str ''req-1'') '''' None ?S =
      Inr (0, snd (new_Call ''Foo.Sum'' (Str ''req-1'') '''' 0 (snd (make_chan 10 ?S))))"
    by (simp add: run_defs)
  have 4: "exec [GoRegister ''Foo.Sum'' (Str ''req-1'') '''' None, SendWrite]
      (newClientCodec race_conn) = Some ?T"
    by (simp add: run_defs race_conn_def)
  have 5: "sending ?T = WriteFailed 0 1 ''write: broken pipe''" "pending ?T 1 = Some 0"
    by (simp_all add: run_defs race_conn_def)
  have 6: "wlog (cc ?S) = []" by (simp add: run_defs)
  from Go_failure_paths [OF 1, where m = "''Foo.Sum''" and ar = "Str ''req-1''" and r = "''''"
      and dn = None and p = 0
      and ?s1.0 = "snd (new_Call ''Foo.Sum'' (Str ''req-1'') '''' 0 (snd (make_chan 10 ?S)))"] 2 3 6
  have A: "\<exists>s'. Go ''Foo.Sum'' (Str ''req-1'') '''' None ?S = Inr (0, s') \<and>
         Error (calls s' 0) = Some ErrShutdown \<and> deliveries s' 0 = 1 \<and> wlog (cc s') = []"
    by auto
  from Go_failure_paths [OF 4, where q = 0 and sq = 1 and e = "''write: broken pipe''"] 5
  have B: "\<exists>s'. step SendCleanup ?T = Some s' \<and>
         Error (calls s' 0) = Some (CodecError ''write: broken pipe'') \<and>
         deliveries s' 0 = 1 \<and> pending s' 1 = None"
    by auto
  from 1 2 4 5 A B show ?thesis by blast
qed

text \<open>
  The claim says that a call whose write fails is delivered with the write error.  On
  \<open>race_conn\<close> the call is registered under sequence number 1; the receiver reads a
  response with that number, takes the call from the pending table and delivers it
  with the decoded reply and no error; then the \<open>Write\<close> fails, \<open>removeCall\<close> finds
  nothing, and \<open>send\<close> returns without a delivery.  The call has been delivered
  once, without the write error.
\<close>

theorem write_failure_after_response_counterexample:
  "exec [GoRegister ''Foo.Sum'' (Str ''req-1'') '''' None, RecvHeader, RecvRemove, RecvBody,
         SendWrite, SendCleanup] (newClientCodec race_conn) \<noteq> None \<and>
   wlog (cc (the (exec [GoRegister ''Foo.Sum'' (Str ''req-1'') '''' None, RecvHeader, RecvRemove,
       RecvBody, SendWrite, SendCleanup] (newClientCodec race_conn)))) =
     [(\<lparr>ServiceMethod_h = ''Foo.Sum'', Seq_h = 1, Error_h = ''''\<rparr>, Str ''req-1'',
       Some ''write: broken pipe'')] \<and>
   sending (the (exec [GoRegister ''Foo.Sum'' (Str ''req-1'') '''' None, RecvHeader, RecvRemove,
       RecvBody, SendWrite, SendCleanup] (newClientCodec race_conn))) = Unlocked \<and>
   Error (calls (the (exec [GoRegister ''Foo.Sum'' (Str ''req-1'') '''' None, RecvHeader,
       RecvRemove, RecvBody, SendWrite, SendCleanup] (newClientCodec race_conn))) 0) = None \<and>
   Reply (calls (the (exec [GoRegister ''Foo.Sum'' (Str ''req-1'') '''' None, RecvHeader,
       RecvRemove, RecvBody, SendWrite, SendCleanup] (newClientCodec race_conn))) 0) =
     ''rpc resp 1'' \<and>
   buf (chans (the (exec [GoRegister ''Foo.Sum'' (Str ''req-1'') '''' None, RecvHeader,
       RecvRemove, RecvBody, SendWrite, SendCleanup] (newClientCodec race_conn))) 0) = [0] \<and>
   pending (the (exec [GoRegister ''Foo.Sum'' (Str ''req-1'') '''' None, RecvHeader,
       RecvRemove, RecvBody, SendWrite, SendCleanup] (newClientCodec race_conn))) 1 = None"
  by (simp add: run_defs race_conn_def)

section \<open>The sequence numbers of a client\<close>

lemma step_registered:
  assumes "step a s = Some s'"
  shows "(registered a s = None \<and> seq s' = seq s \<and> ncalls s \<le> ncalls s') \<or>
    (registered a s = Some (seq s, ncalls s) \<and> seq s' = seq s + 1 \<and> ncalls s' = Suc (ncalls s))"
  using assms
proof (cases rule: step_cases)
  case (GoPanic m ar r d)
  then show ?thesis
    by (simp add: registered_def Go_call_def)
next
  case (GoRejected m ar r dn p s1)
  with Go_call_Inr [OF GoRejected(2)] show ?thesis
    by (auto simp: registered_def registerCall_def)
next
  case (GoRegistered m ar r dn p s1)
  with Go_call_Inr [OF GoRegistered(2)] show ?thesis
    by (auto simp: registered_def registerCall_def)
next
  case (Body h co eo s1)
  with receive_dispatch_effect [OF Body(3)] show ?thesis
    by (simp add: registered_def)
qed (simp_all add: registered_def)

lemma assigned_fst:
  "map fst (assigned sched s) =
     map (\<lambda>i. seq s + of_nat i) [0..<length (assigned sched s)]"
proof (induction sched arbitrary: s)
  case Nil
  show ?case by simp
next
  case (Cons a sched)
  show ?case
  proof (cases "step a s")
    case None
    then show ?thesis by simp
  next
    case (Some s1)
    from step_registered [OF Some] show ?thesis
    proof
      assume "registered a s = None \<and> seq s1 = seq s \<and> ncalls s \<le> ncalls s1"
      with Some Cons.IH [of s1] show ?thesis by simp
    next
      assume r: "registered a s = Some (seq s, ncalls s) \<and> seq s1 = seq s + 1 \<and>
        ncalls s1 = Suc (ncalls s)"
      let ?n = "length (assigned sched s1)"
      have "map (\<lambda>i. seq s + of_nat i) [0..<Suc ?n] =
          seq s # map (\<lambda>i. seq s + of_nat i) (map Suc [0..<?n])"
        by (simp only: map_Suc_upt upt_conv_Cons [of 0 "Suc ?n"]) simp
      also have "\<dots> = seq s # map (\<lambda>i. seq s1 + of_nat i) [0..<?n]"
        using r by (simp add: comp_def add.assoc)
      finally show ?thesis
        using Some r Cons.IH [of s1] by simp
    qed
  qed
qed

lemma assigned_snd:
  "sorted_wrt (<) (map snd (assigned sched s)) \<and>
   (\<forall>p \<in> set (map snd (assigned sched s)). ncalls s \<le> p)"
proof (induction sched arbitrary: s)
  case Nil
  show ?case by simp
next
  case (Cons a sched)
  show ?case
  proof (cases "step a s")
    case None
    then show ?thesis by simp
  next
    case (Some s1)
    from step_registered [OF Some] show ?thesis
    proof
      assume "registered a s = None \<and> seq s1 = seq s \<and> ncalls s \<le> ncalls s1"
      with Some Cons.IH [of s1] show ?thesis by fastforce
    next
      assume r: "registered a s = Some (seq s, ncalls s) \<and> seq s1 = seq s + 1 \<and>
        ncalls s1 = Suc (ncalls s)"
      with Some Cons.IH [of s1] show ?thesis by fastforce
    qed
  qed
qed

lemma unat_upto:
  assumes "n < 2 ^ 64"
  shows "map (\<lambda>i. unat ((1 :: 64 word) + of_nat i)) [0..<n] = [1..<Suc n]"
proof -
  have "unat ((1 :: 64 word) + of_nat i) = Suc i" if "i < n" for i
  proof -
    have "(1 :: 64 word) + of_nat i = of_nat (Suc i)" by simp
    moreover have "Suc i < 2 ^ 64" using that assms by simp
    ultimately show ?thesis
      by (simp only: unat_of_nat) simp
  qed
  then have "map (\<lambda>i. unat ((1 :: 64 word) + of_nat i)) [0..<n] = map Suc [0..<n]"
    by simp
  also have "\<dots> = [Suc 0..<Suc n]" by (rule map_Suc_upt)
  finally show ?thesis by (simp only: One_nat_def)
qed

lemma assigned_append:
  "assigned (xs @ ys) s =
     (case exec xs s of None \<Rightarrow> assigned xs s | Some s1 \<Rightarrow> assigned xs s @ assigned ys s1)"
  by (induction xs arbitrary: s) (auto split: option.splits)

text \<open>
  Claim C2, as the source has it.  In every run of a client from \<open>newClientCodec\<close>,
  whatever the order in which its goroutines run, the \<open>i\<close>-th successful registration
  is assigned the number \<open>i\<close> modulo \<open>2 ^ 64\<close>, and each registration is of a call
  that no earlier registration was of.  So as long as fewer than \<open>2 ^ 64\<close>
  registrations have succeeded, the numbers assigned are \<open>1, 2, 3, \<dots>\<close> without
  gaps: each is greater than all assigned before it, the first one is 1, none is 0 and
  no two are equal.
\<close>

theorem sequence_numbers_count_up:
  "map fst (assigned sched (newClientCodec c)) =
     map of_nat [1..<Suc (length (assigned sched (newClientCodec c)))] \<and>
   sorted_wrt (<) (map snd (assigned sched (newClientCodec c))) \<and>
   (length (assigned sched (newClientCodec c)) < 2 ^ 64 \<longrightarrow>
      map (unat \<circ> fst) (assigned sched (newClientCodec c)) =
        [1..<Suc (length (assigned sched (newClientCodec c)))] \<and>
      sorted_wrt (<) (map fst (assigned sched (newClientCodec c))) \<and>
      distinct (map fst (assigned sched (newClientCodec c))) \<and>
      0 \<notin> set (map fst (assigned sched (newClientCodec c))) \<and>
      (assigned sched (newClientCodec c) \<noteq> [] \<longrightarrow>
         fst (hd (assigned sched (newClientCodec c))) = 1))"
proof -
  let ?xs = "assigned sched (newClientCodec c)"
  let ?n = "length ?xs"
  have fst: "map fst ?xs = map (\<lambda>i. 1 + of_nat i) [0..<?n]"
    using assigned_fst [of sched "newClientCodec c"] by (simp add: newClientCodec_def)
  have "map (\<lambda>i. (1 :: 64 word) + of_nat i) [0..<?n] = map of_nat (map Suc [0..<?n])"
    by simp
  also have "\<dots> = map of_nat [1..<Suc ?n]"
    by (simp only: map_Suc_upt One_nat_def)
  finally have 1: "map fst ?xs = map of_nat [1..<Suc ?n]"
    using fst by simp
  have 2: "sorted_wrt (<) (map snd ?xs)"
    using assigned_snd by blast
  have 3: "map (unat \<circ> fst) ?xs = [1..<Suc ?n] \<and> sorted_wrt (<) (map fst ?xs) \<and>
      distinct (map fst ?xs) \<and> 0 \<notin> set (map fst ?xs) \<and> (?xs \<noteq> [] \<longrightarrow> fst (hd ?xs) = 1)"
    if n: "?n < 2 ^ 64"
  proof -
    have "map (unat \<circ> fst) ?xs = map unat (map fst ?xs)" by simp
    also have "\<dots> = map (\<lambda>i. unat ((1 :: 64 word) + of_nat i)) [0..<?n]"
      unfolding fst by (simp add: comp_def)
    also have "\<dots> = [1..<Suc ?n]" using n by (rule unat_upto)
    finally have u: "map unat (map fst ?xs) = [1..<Suc ?n]" by simp
    have "sorted_wrt (<) (map unat (map fst ?xs))"
      unfolding u by (rule sorted_wrt_upt)
    then have s: "sorted_wrt (<) (map fst ?xs)"
      by (simp add: sorted_wrt_map word_less_nat_alt)
    have "distinct (map unat (map fst ?xs))"
      unfolding u by (rule distinct_upt)
    then have d: "distinct (map fst ?xs)"
      using distinct_map [of unat "map fst ?xs"] by blast
    have z: "0 \<notin> set (map fst ?xs)"
    proof
      assume "0 \<in> set (map fst ?xs)"
      then have "unat (0 :: 64 word) \<in> unat ` set (map fst ?xs)"
        by (rule imageI)
      then have "unat (0 :: 64 word) \<in> set (map unat (map fst ?xs))"
        by (simp only: set_map)
      then have "(0 :: nat) \<in> set [1..<Suc ?n]"
        by (simp only: u unat_0)
      then show False by (simp del: upt_Suc)
    qed
    have h: "fst (hd ?xs) = 1" if "?xs \<noteq> []"
    proof -
      from that have "0 < ?n" by simp
      then have "[0..<?n] = 0 # [1..<?n]" by (simp add: upt_conv_Cons)
      with fst have "map fst ?xs = 1 # map (\<lambda>i. 1 + of_nat i) [1..<?n]" by simp
      with that show ?thesis by (cases ?xs) simp_all
    qed
    from u s d z h show ?thesis by simp
  qed
  from 1 2 3 show ?thesis by blast
qed



lemma rounds_Suc:
  "rounds (Suc n) = [GoRegister ''Foo.Sum'' (Str ''req'') '''' None, SendWrite] @ rounds n"
  by (simp add: rounds_def)

lemma round_run:
  assumes "ready s"
  shows "\<exists>s'. exec [GoRegister ''Foo.Sum'' (Str ''req'') '''' None, SendWrite] s = Some s' \<and>
    ready s' \<and>
    assigned [GoRegister ''Foo.Sum'' (Str ''req'') '''' None, SendWrite] s = [(seq s, ncalls s)] \<and>
    seq s' = seq s + 1 \<and> ncalls s' = Suc (ncalls s) \<and> nchans s' = Suc (nchans s) \<and>
    pending s' = (pending s)(seq s \<mapsto> ncalls s) \<and> receiver s' = receiver s \<and>
    hdr_in (cc s') = hdr_in (cc s) \<and>
    (\<forall>x. buf (chans s' x) = (if x = nchans s then [] else buf (chans s x))) \<and>
    (\<forall>q. q \<noteq> ncalls s \<longrightarrow> calls s' q = calls s q)"
  using assms
  by (simp add: ready_def registered_def Go_call_def make_chan_def new_Call_def
      send_register_def registerCall_def send_write_def JsonCodec_Write_def Let_def)

lemma rounds_run:
  assumes "ready s"
  shows "\<exists>s'. exec (rounds n) s = Some s' \<and> ready s' \<and>
    length (assigned (rounds n) s) = n \<and>
    seq s' = seq s + of_nat n \<and> ncalls s' = ncalls s + n \<and>
    receiver s' = receiver s \<and> hdr_in (cc s') = hdr_in (cc s) \<and>
    (\<forall>x. buf (chans s x) = [] \<longrightarrow> buf (chans s' x) = []) \<and>
    (\<forall>q. q < ncalls s \<longrightarrow> calls s' q = calls s q) \<and>
    (\<forall>k q. q < ncalls s \<and> pending s' k = Some q \<longrightarrow>
       pending s k = Some q \<and> (\<forall>i < n. seq s + of_nat i \<noteq> k))"
  using assms
proof (induction n arbitrary: s)
  case 0
  then show ?case by (simp add: rounds_def)
next
  case (Suc n)
  let ?r = "[GoRegister ''Foo.Sum'' (Str ''req'') '''' None, SendWrite]"
  from round_run [OF Suc.prems] obtain s1 where 1: "exec ?r s = Some s1" "ready s1"
    "assigned ?r s = [(seq s, ncalls s)]" "seq s1 = seq s + 1" "ncalls s1 = Suc (ncalls s)"
    "pending s1 = (pending s)(seq s \<mapsto> ncalls s)" "receiver s1 = receiver s"
    "hdr_in (cc s1) = hdr_in (cc s)"
    "\<forall>x. buf (chans s1 x) = (if x = nchans s then [] else buf (chans s x))"
    "\<forall>q. q \<noteq> ncalls s \<longrightarrow> calls s1 q = calls s q"
    by blast
  from Suc.IH [OF 1(2)] obtain s' where 2: "exec (rounds n) s1 = Some s'" "ready s'"
    "length (assigned (rounds n) s1) = n" "seq s' = seq s1 + of_nat n"
    "ncalls s' = ncalls s1 + n" "receiver s' = receiver s1" "hdr_in (cc s') = hdr_in (cc s1)"
    "\<forall>x. buf (chans s1 x) = [] \<longrightarrow> buf (chans s' x) = []"
    "\<forall>q. q < ncalls s1 \<longrightarrow> calls s' q = calls s1 q"
    "\<forall>k q. q < ncalls s1 \<and> pending s' k = Some q \<longrightarrow>
       pending s1 k = Some q \<and> (\<forall>i < n. seq s1 + of_nat i \<noteq> k)"
    by blast
  have ex: "exec (rounds (Suc n)) s = Some s'"
    unfolding rounds_Suc exec_append using 1(1) 2(1) by simp
  have len: "length (assigned (rounds (Suc n)) s) = Suc n"
    unfolding rounds_Suc assigned_append using 1(1,3) 2(3) by simp
  have pend: "pending s k = Some q \<and> (\<forall>i < Suc n. seq s + of_nat i \<noteq> k)"
    if "q < ncalls s" "pending s' k = Some q" for k q
  proof -
    from that(1) 1(5) have "q < ncalls s1" by simp
    with 2(10) that(2) have "pending s1 k = Some q \<and> (\<forall>i < n. seq s1 + of_nat i \<noteq> k)"
      by blast
    then have a: "pending s1 k = Some q" and b: "\<forall>i < n. seq s1 + of_nat i \<noteq> k"
      by blast+
    from a that(1) have k: "k \<noteq> seq s" and p: "pending s k = Some q"
      by (auto simp: 1(6) split: if_splits)
    have "seq s + of_nat i \<noteq> k" if "i < Suc n" for i
    proof (cases i)
      case 0
      with k show ?thesis by simp
    next
      case (Suc j)
      with that b have A: "seq s1 + of_nat j \<noteq> k" by simp
      have B: "seq s + of_nat (Suc j) = seq s1 + of_nat j"
        by (simp add: 1(4) ac_simps)
      show ?thesis unfolding Suc B by (rule A)
    qed
    with p show ?thesis by blast
  qed
  have c1: "seq s' = seq s + of_nat (Suc n)" using 1(4) 2(4) by (simp add: add.assoc)
  have c2: "ncalls s' = ncalls s + Suc n" using 1(5) 2(5) by simp
  have c3: "\<forall>x. buf (chans s x) = [] \<longrightarrow> buf (chans s' x) = []"
    using 1(9) 2(8) by auto
  have c4: "\<forall>q. q < ncalls s \<longrightarrow> calls s' q = calls s q"
    using 1(5,10) 2(9) by auto
  have c5: "receiver s' = receiver s" using 1(7) 2(6) by simp
  have c6: "hdr_in (cc s') = hdr_in (cc s)" using 1(8) 2(7) by simp
  have c7: "\<forall>k q. q < ncalls s \<and> pending s' k = Some q \<longrightarrow>
       pending s k = Some q \<and> (\<forall>i < Suc n. seq s + of_nat i \<noteq> k)"
    using pend by blast
  note c0 = 2(2)
  show ?case
    by (intro exI [of _ s'] conjI) (fact ex c0 len c1 c2 c3 c4 c5 c6 c7)+
qed

lemma ready_newClientCodec: "ready (newClientCodec quiet_conn)"
  by (simp add: ready_def newClientCodec_def quiet_conn_def)

lemma last_assigned_rounds:
  assumes "0 < n"
  shows "fst (last (assigned (rounds n) (newClientCodec quiet_conn))) = of_nat n \<and>
    fst (hd (assigned (rounds n) (newClientCodec quiet_conn))) = 1 \<and>
    length (assigned (rounds n) (newClientCodec quiet_conn)) = n"
proof -
  let ?xs = "assigned (rounds n) (newClientCodec quiet_conn)"
  from rounds_run [OF ready_newClientCodec, of n] have len: "length ?xs = n" by blast
  with assms have ne: "?xs \<noteq> []" by auto
  have fst: "map fst ?xs = map (\<lambda>i. 1 + of_nat i) [0..<n]"
    using assigned_fst [of "rounds n" "newClientCodec quiet_conn"] len
    by (simp add: newClientCodec_def)
  from assms have up: "[0..<n] \<noteq> []" by simp
  have "fst (last ?xs) = last (map fst ?xs)" using ne by (simp add: last_map)
  also have "\<dots> = 1 + of_nat (last [0..<n])" unfolding fst using up by (simp add: last_map)
  also have "last [0..<n] = n - 1" using assms by (cases n) simp_all
  also have "(1 :: 64 word) + of_nat (n - 1) = of_nat n" using assms by (cases n) simp_all
  finally have l: "fst (last ?xs) = of_nat n" .
  have "fst (hd ?xs) = hd (map fst ?xs)" using ne by (simp add: hd_map)
  also have "\<dots> = 1 + of_nat (hd [0..<n])" unfolding fst using up by (simp add: hd_map)
  also have "hd [0..<n] = 0" using assms by (simp only: upt_conv_Cons [of 0 n] list.sel)
  finally have h: "fst (hd ?xs) = 1" by simp
  from l h len show ?thesis by blast
qed

theorem sequence_numbers_count_up_witness:
  "assigned [GoRegister ''Foo.Sum'' (Str ''req-1'') '''' None, SendWrite,
             GoRegister ''Foo.Sum'' (Str ''req-2'') '''' None, SendWrite]
     (newClientCodec quiet_conn) = [(1, 0), (2, 1)] \<and>
   length (assigned [GoRegister ''Foo.Sum'' (Str ''req-1'') '''' None, SendWrite,
             GoRegister ''Foo.Sum'' (Str ''req-2'') '''' None, SendWrite]
     (newClientCodec quiet_conn)) < 2 ^ 64 \<and>
   sorted_wrt (<) (map fst (assigned [GoRegister ''Foo.Sum'' (Str ''req-1'') '''' None, SendWrite,
             GoRegister ''Foo.Sum'' (Str ''req-2'') '''' None, SendWrite]
     (newClientCodec quiet_conn)))"
proof -
  have a: "assigned [GoRegister ''Foo.Sum'' (Str ''req-1'') '''' None, SendWrite,
             GoRegister ''Foo.Sum'' (Str ''req-2'') '''' None, SendWrite]
     (newClientCodec quiet_conn) = [(1, 0), (2, 1)]"
    by (simp add: run_defs registered_def)
  then have "length (assigned [GoRegister ''Foo.Sum'' (Str ''req-1'') '''' None, SendWrite,
             GoRegister ''Foo.Sum'' (Str ''req-2'') '''' None, SendWrite]
     (newClientCodec quiet_conn)) < 2 ^ 64"
    by simp
  with sequence_numbers_count_up [of "[GoRegister ''Foo.Sum'' (Str ''req-1'') '''' None, SendWrite,
             GoRegister ''Foo.Sum'' (Str ''req-2'') '''' None, SendWrite]" quiet_conn] a
  show ?thesis by simp
qed

text \<open>
  The claim says that every registration is assigned a number greater than all before
  it and that 0 is never assigned.  The counter is a \<open>uint64\<close>: in the run of
  \<open>2 ^ 64\<close> calls one after the other, every one is registered, the first is
  assigned 1 and the last is assigned 0.
\<close>

theorem sequence_number_wraps_counterexample:
  "length (assigned (rounds (2 ^ 64)) (newClientCodec quiet_conn)) = 2 ^ 64 \<and>
   fst (hd (assigned (rounds (2 ^ 64)) (newClientCodec quiet_conn))) = 1 \<and>
   fst (last (assigned (rounds (2 ^ 64)) (newClientCodec quiet_conn))) = 0"
proof -
  have "(0 :: nat) < 2 ^ 64" by simp
  from last_assigned_rounds [OF this] have
    "fst (last (assigned (rounds (2 ^ 64)) (newClientCodec quiet_conn))) = of_nat (2 ^ 64)"
    "fst (hd (assigned (rounds (2 ^ 64)) (newClientCodec quiet_conn))) = 1"
    "length (assigned (rounds (2 ^ 64)) (newClientCodec quiet_conn)) = 2 ^ 64"
    by blast+
  moreover have "(of_nat (2 ^ 64) :: 64 word) = 0"
    using of_nat_2p [where 'a = 64] by simp
  ultimately show ?thesis by (simp only:)
qed

section \<open>Every call is delivered\<close>

lemma step_pending_subset:
  assumes "step a s = Some s'" and "registered a s = None" and "pending s' k = Some p"
  shows "pending s k = Some p"
  using assms(1)
proof (cases rule: step_cases)
  case (GoRejected m ar r dn q s1)
  with assms(3) Go_call_Inr [OF GoRejected(2)] show ?thesis by simp
next
  case (GoRegistered m ar r dn q s1)
  with assms(2) Go_call_Inr [OF GoRegistered(2)] show ?thesis
    by (simp add: registered_def registerCall_def)
next
  case (Body h co eo s1)
  with assms(3) receive_dispatch_effect [OF Body(3)] show ?thesis by simp
qed (use assms(3) in \<open>auto split: if_splits\<close>)

lemma fresh_seq_step:
  assumes "fresh_seq s" and "step a s = Some s'" and "ncalls s' < 2 ^ 64 - 1"
  shows "fresh_seq s'"
proof -
  from assms(1) have le: "unat (seq s) \<le> ncalls s + 1"
    and keys: "\<And>k p. pending s k = Some p \<Longrightarrow> unat k < unat (seq s)"
    by (auto simp: fresh_seq_def)
  from step_registered [OF assms(2)] show ?thesis
  proof
    assume r: "registered a s = None \<and> seq s' = seq s \<and> ncalls s \<le> ncalls s'"
    then have "unat (seq s') \<le> ncalls s' + 1" using le by simp
    moreover have "unat k < unat (seq s')" if "pending s' k = Some p" for k p
      using keys [OF step_pending_subset [OF assms(2) _ that]] r by simp
    ultimately show ?thesis by (auto simp: fresh_seq_def)
  next
    assume r: "registered a s = Some (seq s, ncalls s) \<and> seq s' = seq s + 1 \<and>
      ncalls s' = Suc (ncalls s)"
    with le assms(3) have "unat (seq s) + 1 < 2 ^ 64" by simp
    then have u: "unat (seq s + 1) = unat (seq s) + 1"
      by (simp add: unat_word_ariths)
    from assms(2) r have p': "pending s' = (pending s)(seq s \<mapsto> ncalls s)"
    proof (cases rule: step_cases)
      case (GoRegistered m ar r dn q s1)
      with Go_call_Inr [OF GoRegistered(2)] show ?thesis by simp
    qed (simp_all add: registered_def Go_call_def registerCall_def
        split: option.splits sum.splits prod.splits if_splits)
    have "unat (seq s') \<le> ncalls s' + 1" using r u le by simp
    moreover have "unat k < unat (seq s')" if "pending s' k = Some p" for k p
      using that keys [of k p] r u by (auto simp: p' split: if_splits)
    ultimately show ?thesis by (auto simp: fresh_seq_def)
  qed
qed

lemma accounted_frame:
  assumes "accounted s" and "ncalls s' = ncalls s" and "shutdown s' = shutdown s"
    and "\<And>p. deliveries s p = 1 \<Longrightarrow> deliveries s' p = 1"
    and "\<And>k p. pending s k = Some p \<Longrightarrow>
           (\<exists>k'. pending s' k' = Some p) \<or> deliveries s' p = 1 \<or>
           (\<exists>h. receiver s' = Removed h (Some p))"
    and "\<And>h p. receiver s = Removed h (Some p) \<Longrightarrow>
           (\<exists>h'. receiver s' = Removed h' (Some p)) \<or> deliveries s' p = 1"
  shows "accounted s'"
  unfolding accounted_def assms(2,3)
proof (intro allI impI)
  fix p assume "p < ncalls s"
  with assms(1) have "deliveries s p = 1 \<or>
      (\<not> shutdown s \<and> ((\<exists>k. pending s k = Some p) \<or> (\<exists>h. receiver s = Removed h (Some p))))"
    by (simp add: accounted_def)
  then show "deliveries s' p = 1 \<or>
      (\<not> shutdown s \<and> ((\<exists>k. pending s' k = Some p) \<or> (\<exists>h. receiver s' = Removed h (Some p))))"
    using assms(4) [of p] assms(5) [of _ p] assms(6) [of _ p] by blast
qed

lemma accounted_step:
  assumes "safe s" and "accounted s" and "fresh_seq s" and "step a s = Some s'"
  shows "accounted s'"
proof -
  note d = safeD [OF assms(1)]
  have s': "safe s'" using assms(1,4) by (rule safe_step)
  have mono: "deliveries s' p = 1" if "deliveries s p = 1" for p
    using deliveries_mono_step [OF assms(1,4), of p] safeD(6) [OF s', of p] that by simp
  from assms(4) show ?thesis
  proof (cases rule: step_cases)
    case (MakeChan n)
    show ?thesis
    proof (rule accounted_frame [OF assms(2)])
      show "\<And>p. deliveries s p = 1 \<Longrightarrow> deliveries s' p = 1" by (rule mono)
    qed (auto simp: MakeChan)
  next
    case (GoPanic m ar r d)
    with assms(2) show ?thesis by simp
  next
    case (GoRejected m ar r dn q s1)
    note g = Go_call_Inr [OF GoRejected(2)]
    from safe_GoRejected [OF assms(1) GoRejected(2,3,6)] have dq: "deliveries s' q = 1" by simp
    have f: "ncalls s' = Suc (ncalls s)" "shutdown s' = shutdown s" "pending s' = pending s"
      "receiver s' = receiver s"
      using g by (simp_all add: GoRejected(6))
    show ?thesis
      unfolding accounted_def f
    proof (intro allI impI)
      fix p assume "p < Suc (ncalls s)"
      then have "p = q \<or> p < ncalls s" using g by auto
      then show "deliveries s' p = 1 \<or>
          (\<not> shutdown s \<and> ((\<exists>k. pending s k = Some p) \<or> (\<exists>h. receiver s = Removed h (Some p))))"
        using dq mono [of p] assms(2) unfolding accounted_def by blast
    qed
  next
    case (GoRegistered m ar r dn q s1)
    note g = Go_call_Inr [OF GoRegistered(2)]
    have f: "ncalls s' = Suc (ncalls s)" "shutdown s' = shutdown s"
      "pending s' = (pending s)(seq s \<mapsto> q)" "receiver s' = receiver s"
      using g by (simp_all add: GoRegistered(7))
    have keep: "pending s' k = Some p" if "pending s k = Some p" for k p
    proof -
      from assms(3) that have "unat k < unat (seq s)" by (auto simp: fresh_seq_def)
      then have "k \<noteq> seq s" by auto
      with that show ?thesis by (simp add: f)
    qed
    show ?thesis
      unfolding accounted_def f(1,2,4)
    proof (intro allI impI)
      fix p assume "p < Suc (ncalls s)"
      then have "p = q \<or> p < ncalls s" using g by auto
      then show "deliveries s' p = 1 \<or>
          (\<not> shutdown s \<and> ((\<exists>k. pending s' k = Some p) \<or> (\<exists>h. receiver s = Removed h (Some p))))"
      proof
        assume "p = q"
        then have "pending s' (seq s) = Some p" by (simp add: f)
        with GoRegistered(6) show ?thesis by blast
      next
        assume "p < ncalls s"
        with assms(2) have "deliveries s p = 1 \<or>
            (\<not> shutdown s \<and> ((\<exists>k. pending s k = Some p) \<or> (\<exists>h. receiver s = Removed h (Some p))))"
          by (simp add: accounted_def)
        then show ?thesis using mono [of p] keep by blast
      qed
    qed
  next
    case (WriteOk q sq h c)
    show ?thesis
    proof (rule accounted_frame [OF assms(2)])
      show "\<And>p. deliveries s p = 1 \<Longrightarrow> deliveries s' p = 1" by (rule mono)
    qed (auto simp: WriteOk)
  next
    case (WriteFail q sq h c e)
    show ?thesis
    proof (rule accounted_frame [OF assms(2)])
      show "\<And>p. deliveries s p = 1 \<Longrightarrow> deliveries s' p = 1" by (rule mono)
    qed (auto simp: WriteFail)
  next
    case (CleanupNone q sq e)
    have "(pending s)(sq := None) = pending s"
      using CleanupNone(3) by (simp add: fun_upd_idem)
    then show ?thesis
    proof (intro accounted_frame [OF assms(2)])
      show "\<And>p. deliveries s p = 1 \<Longrightarrow> deliveries s' p = 1" by (rule mono)
    qed (auto simp: CleanupNone)
  next
    case (CleanupSome q' sq e q)
    have ns: "\<not> shutdown s" by (rule d(9)) (simp add: CleanupSome)
    have 0: "deliveries s q = 0" using d(4) [OF ns CleanupSome(3)] .
    then have 1: "deliveries s' q = 1"
      by (simp add: CleanupSome(4) deliveries_def call_done_chans set_Error_calls)
    show ?thesis
    proof (rule accounted_frame [OF assms(2)])
      fix k p assume a: "pending s k = Some p"
      show "(\<exists>k'. pending s' k' = Some p) \<or> deliveries s' p = 1 \<or>
          (\<exists>h. receiver s' = Removed h (Some p))"
      proof (cases "k = sq")
        case True
        with a CleanupSome(3) 1 show ?thesis by simp
      next
        case False
        with a have "pending s' k = Some p" by (simp add: CleanupSome(4))
        then show ?thesis by blast
      qed
    next
      show "\<And>p. deliveries s p = 1 \<Longrightarrow> deliveries s' p = 1" by (rule mono)
    qed (simp_all add: CleanupSome(4))
  next
    case CloseShutdown
    with assms(2) show ?thesis by simp
  next
    case Close
    show ?thesis
    proof (rule accounted_frame [OF assms(2)])
      show "\<And>p. deliveries s p = 1 \<Longrightarrow> deliveries s' p = 1" by (rule mono)
    qed (auto simp: Close)
  next
    case (HeaderErr e c)
    show ?thesis
    proof (rule accounted_frame [OF assms(2)])
      show "\<And>p. deliveries s p = 1 \<Longrightarrow> deliveries s' p = 1" by (rule mono)
    qed (auto simp: HeaderErr)
  next
    case (HeaderOk h c)
    show ?thesis
    proof (rule accounted_frame [OF assms(2)])
      show "\<And>p. deliveries s p = 1 \<Longrightarrow> deliveries s' p = 1" by (rule mono)
    qed (auto simp: HeaderOk)
  next
    case (Remove h)
    show ?thesis
    proof (rule accounted_frame [OF assms(2)])
      fix k p assume a: "pending s k = Some p"
      show "(\<exists>k'. pending s' k' = Some p) \<or> deliveries s' p = 1 \<or>
          (\<exists>h. receiver s' = Removed h (Some p))"
      proof (cases "k = Seq_h h")
        case True
        with a show ?thesis by (simp add: Remove(3))
      next
        case False
        with a have "pending s' k = Some p" by (simp add: Remove(3))
        then show ?thesis by blast
      qed
    next
      show "\<And>p. deliveries s p = 1 \<Longrightarrow> deliveries s' p = 1" by (rule mono)
    qed (use Remove(2) in \<open>simp_all add: Remove(3)\<close>)
  next
    case (Body h co eo s1)
    note e = receive_dispatch_effect [OF Body(3)]
    show ?thesis
    proof (rule accounted_frame [OF assms(2)])
      fix h' p assume a: "receiver s = Removed h' (Some p)"
      with Body(2) have "co = Some p" by simp
      with Body_delivers [OF assms(1) a] Body(2,3) a have "deliveries s' p = 1"
        by (simp add: Body(4))
      then show "(\<exists>h'. receiver s' = Removed h' (Some p)) \<or> deliveries s' p = 1" by blast
    next
      fix k p assume "pending s k = Some p"
      then have "pending s' k = Some p" using e by (simp add: Body(4))
      then show "(\<exists>k'. pending s' k' = Some p) \<or> deliveries s' p = 1 \<or>
          (\<exists>h. receiver s' = Removed h (Some p))" by blast
    next
      show "\<And>p. deliveries s p = 1 \<Longrightarrow> deliveries s' p = 1" by (rule mono)
    qed (use e in \<open>simp_all add: Body(4)\<close>)
  next
    case (Terminate order e)
    note t = safe_Terminate [OF assms(1) Terminate(2,3,4,5)]
    have ns: "\<not> shutdown s" using d(8) Terminate(2) by simp
    have n: "ncalls s' = ncalls s" by (simp add: Terminate(5))
    show ?thesis
      unfolding accounted_def n
    proof (intro allI impI)
      fix p assume "p < ncalls s"
      with assms(2) have "deliveries s p = 1 \<or> (\<exists>k. pending s k = Some p)"
        using Terminate(2) by (auto simp: accounted_def)
      then have "deliveries s' p = 1"
      proof
        assume "deliveries s p = 1"
        then show ?thesis by (rule mono)
      next
        assume "\<exists>k. pending s k = Some p"
        then obtain k where k: "pending s k = Some p" by blast
        from d(4) [OF ns k] t k show ?thesis by auto
      qed
      then show "deliveries s' p = 1 \<or>
          (\<not> shutdown s' \<and> ((\<exists>k. pending s' k = Some p) \<or> (\<exists>h. receiver s' = Removed h (Some p))))"
        by blast
    qed
  qed
qed

lemma ncalls_mono_step: "step a s = Some s' \<Longrightarrow> ncalls s \<le> ncalls s'"
  using step_registered [of a s s'] by auto

lemma accounted_exec:
  assumes "exec sched (newClientCodec c) = Some s"
  shows "safe s \<and> (ncalls s < 2 ^ 64 - 1 \<longrightarrow> accounted s \<and> fresh_seq s)"
  using assms
proof (induction rule: exec_induct)
  case start
  have "accounted (newClientCodec c)" "fresh_seq (newClientCodec c)"
    by (simp_all add: accounted_def fresh_seq_def newClientCodec_def)
  with safe_newClientCodec show ?case by blast
next
  case (step a t t')
  have "safe t'" using step safe_step by blast
  moreover have "accounted t' \<and> fresh_seq t'" if b: "ncalls t' < 2 ^ 64 - 1"
  proof -
    from ncalls_mono_step [OF step(2)] b have "ncalls t < 2 ^ 64 - 1" by simp
    with step(1) have "safe t" "accounted t" "fresh_seq t" by simp_all
    with step(2) b show ?thesis
      using accounted_step fresh_seq_step by blast
  qed
  ultimately show ?case by blast
qed



lemma step_pending_dom:
  assumes "step a s = Some s'"
  shows "dom (pending s') \<subseteq> insert (seq s) (dom (pending s))"
  using assms
proof (cases rule: step_cases)
  case (GoRejected m ar r dn q s1)
  with Go_call_Inr [OF GoRejected(2)] show ?thesis by auto
next
  case (GoRegistered m ar r dn q s1)
  with Go_call_Inr [OF GoRegistered(2)] show ?thesis by auto
next
  case (Body h co eo s1)
  with receive_dispatch_effect [OF Body(3)] show ?thesis by auto
qed (auto split: if_splits)

lemma finite_pending_exec:
  assumes "exec sched (newClientCodec c) = Some s"
  shows "finite (dom (pending s))"
  using assms
proof (induction rule: exec_induct)
  case start
  show ?case by (simp add: newClientCodec_def)
next
  case (step a t t')
  from step_pending_dom [OF step(2)] step(1) show ?case
    by (meson finite_insert finite_subset)
qed

lemma sender_finishes:
  "\<exists>sched' s'. exec sched' s = Some s' \<and> sending s' = Unlocked \<and> ncalls s' = ncalls s \<and>
     receiver s' = receiver s \<and> hdr_in (cc s') = hdr_in (cc s) \<and>
     dom (pending s') \<subseteq> dom (pending s)"
proof -
  have cleanup: "\<exists>s'. exec [SendCleanup] t = Some s' \<and> sending s' = Unlocked \<and>
      ncalls s' = ncalls t \<and> receiver s' = receiver t \<and> hdr_in (cc s') = hdr_in (cc t) \<and>
      dom (pending s') \<subseteq> dom (pending t)"
    if "sending t = WriteFailed p sq e" for t p sq e
    using that by (auto simp: send_cleanup_def removeCall_def split: option.splits)
  show ?thesis
  proof (cases "sending s")
    case Unlocked
    then have "exec [] s = Some s \<and> sending s = Unlocked" by simp
    then show ?thesis by blast
  next
    case (Registered p sq)
    obtain r s1 where w: "send_write p sq s = (r, s1)" by (cases "send_write p sq s")
    then have f: "ncalls s1 = ncalls s" "receiver s1 = receiver s"
      "hdr_in (cc s1) = hdr_in (cc s)" "pending s1 = pending s"
      by (auto simp: send_write_def JsonCodec_Write_def JsonCodec_Close_def Let_def
          split: option.splits list.splits)
    show ?thesis
    proof (cases r)
      case None
      with Registered w f have "exec [SendWrite] s = Some (s1\<lparr>sending := Unlocked\<rparr>)" by simp
      with f show ?thesis
        by (intro exI [of _ "[SendWrite]"] exI [of _ "s1\<lparr>sending := Unlocked\<rparr>"]) simp
    next
      case (Some e)
      let ?t = "s1\<lparr>sending := WriteFailed p sq e\<rparr>"
      from Some Registered w have 1: "step SendWrite s = Some ?t" by simp
      from cleanup [of ?t p sq e] obtain s' where 2: "exec [SendCleanup] ?t = Some s'"
        "sending s' = Unlocked" "ncalls s' = ncalls ?t" "receiver s' = receiver ?t"
        "hdr_in (cc s') = hdr_in (cc ?t)" "dom (pending s') \<subseteq> dom (pending ?t)"
        by auto
      from 1 2(1) have "exec [SendWrite, SendCleanup] s = Some s'"
        by (simp split: option.splits)
      with 2 f show ?thesis
        by (intro exI [of _ "[SendWrite, SendCleanup]"] exI [of _ s']) simp
    qed
  next
    case (WriteFailed p sq e)
    from cleanup [OF this] show ?thesis by blast
  qed
qed

lemma ReadHeader_length:
  "JsonCodec_ReadHeader c = (r, c') \<Longrightarrow>
     length (hdr_in c') \<le> length (hdr_in c) \<and>
     ((\<exists>h. r = Inr h) \<longrightarrow> length (hdr_in c') < length (hdr_in c))"
  by (auto simp: JsonCodec_ReadHeader_def split: list.splits)

lemma receiver_finishes:
  assumes "sending s = Unlocked" and "finite (dom (pending s))"
  shows "\<exists>sched' s'. exec sched' s = Some s' \<and> receiver s' = Terminated \<and>
    sending s' = Unlocked \<and> ncalls s' = ncalls s"
  using assms
proof (induction "recv_steps s" arbitrary: s rule: less_induct)
  case less
  have next_step: "\<exists>sched' s'. exec sched' s = Some s' \<and> receiver s' = Terminated \<and>
      sending s' = Unlocked \<and> ncalls s' = ncalls s"
    if "step a s = Some s1" "recv_steps s1 < recv_steps s" "sending s1 = Unlocked"
      "finite (dom (pending s1))" "ncalls s1 = ncalls s" for a s1
  proof -
    from less.hyps [OF that(2,3,4)] obtain sched' s' where "exec sched' s1 = Some s'"
      "receiver s' = Terminated" "sending s' = Unlocked" "ncalls s' = ncalls s1" by blast
    with that(1,5) have "exec (a # sched') s = Some s' \<and> receiver s' = Terminated \<and>
      sending s' = Unlocked \<and> ncalls s' = ncalls s" by simp
    then show ?thesis by blast
  qed
  show ?case
  proof (cases "receiver s")
    case ReadingHeader
    obtain r c where rd: "JsonCodec_ReadHeader (cc s) = (r, c)"
      by (cases "JsonCodec_ReadHeader (cc s)")
    note len = ReadHeader_length [OF rd]
    show ?thesis
    proof (cases r)
      case (Inl e)
      show ?thesis
        by (rule next_step [of RecvHeader "s\<lparr>cc := c, receiver := Exited e\<rparr>"])
          (use ReadingHeader rd Inl len less.prems in \<open>simp_all add: recv_steps_def\<close>)
    next
      case (Inr h)
      show ?thesis
        by (rule next_step [of RecvHeader "s\<lparr>cc := c, receiver := GotHeader h\<rparr>"])
          (use ReadingHeader rd Inr len less.prems in \<open>simp_all add: recv_steps_def\<close>)
    qed
  next
    case (GotHeader h)
    show ?thesis
      by (rule next_step [of RecvRemove "s\<lparr>pending := (pending s)(Seq_h h := None),
            receiver := Removed h (pending s (Seq_h h))\<rparr>"])
        (use GotHeader less.prems in \<open>simp_all add: recv_steps_def removeCall_def\<close>)
  next
    case (Removed h co)
    obtain eo s1 where rd: "receive_dispatch h co s = (eo, s1)"
      by (cases "receive_dispatch h co s")
    note e = receive_dispatch_effect [OF rd]
    show ?thesis
      by (rule next_step [of RecvBody
            "s1\<lparr>receiver := (case eo of None \<Rightarrow> ReadingHeader | Some e \<Rightarrow> Exited e)\<rparr>"])
        (use Removed rd e less.prems in \<open>auto simp: recv_steps_def split: option.splits\<close>)
  next
    case (Exited e)
    from finite_distinct_list [OF less.prems(2)] obtain order
      where "set order = dom (pending s)" "distinct order" by blast
    then have en: "enumerates order (pending s)" by (simp add: enumerates_def)
    let ?s' = "(terminateCalls (CodecError e) order s)\<lparr>receiver := Terminated\<rparr>"
    have "exec [RecvTerminate order] s = Some ?s'"
      using Exited less.prems(1) en by simp
    moreover have "receiver ?s' = Terminated" "sending ?s' = Unlocked" "ncalls ?s' = ncalls s"
      using less.prems(1) by (simp_all add: terminateCalls_def)
    ultimately show ?thesis by blast
  next
    case Terminated
    with less.prems(1) have "exec [] s = Some s \<and> receiver s = Terminated \<and>
      sending s = Unlocked \<and> ncalls s = ncalls s" by simp
    then show ?thesis by blast
  qed
qed

lemma client_finishes:
  assumes "finite (dom (pending s))"
  shows "\<exists>sched' s'. exec sched' s = Some s' \<and> receiver s' = Terminated \<and>
    sending s' = Unlocked \<and> ncalls s' = ncalls s"
proof -
  from sender_finishes [of s] obtain sched1 s1 where 1: "exec sched1 s = Some s1"
    "sending s1 = Unlocked" "ncalls s1 = ncalls s" "dom (pending s1) \<subseteq> dom (pending s)"
    by blast
  from 1(4) assms have "finite (dom (pending s1))" by (rule finite_subset)
  from receiver_finishes [OF 1(2) this] obtain sched2 s2 where 2: "exec sched2 s1 = Some s2"
    "receiver s2 = Terminated" "sending s2 = Unlocked" "ncalls s2 = ncalls s1" by blast
  from 1(1) 2(1) have "exec (sched1 @ sched2) s = Some s2" by (simp add: exec_append)
  with 2 1(3) show ?thesis by auto
qed

lemma count_list_le_1_distinct:
  "(\<And>q. q \<in> set xs \<Longrightarrow> count_list xs q \<le> 1) \<Longrightarrow> distinct xs"
proof (induction xs)
  case Nil
  then show ?case by simp
next
  case (Cons a xs)
  from Cons.prems [of a] have "count_list xs a = 0" by simp
  then have a: "a \<notin> set xs" by (simp add: count_list_0_iff)
  have "count_list xs q \<le> 1" if "q \<in> set xs" for q
    using Cons.prems [of q] that by (simp split: if_splits)
  then have "distinct xs" by (rule Cons.IH)
  with a show ?case by simp
qed

lemma sends_bounded:
  assumes "safe s"
  shows "distinct (buf (chans s x)) \<and>
    length (buf (chans s x)) \<le> card {q. q < ncalls s \<and> Done (calls s q) = x}"
proof -
  note d = safeD [OF assms]
  have mem: "q < ncalls s \<and> x = Done (calls s q)" if "q \<in> set (buf (chans s x))" for q
    using d(7) that by blast
  have "count_list (buf (chans s x)) q \<le> 1" if "q \<in> set (buf (chans s x))" for q
  proof -
    from mem [OF that] have "deliveries s q = count_list (buf (chans s x)) q"
      by (simp add: deliveries_def)
    with d(6) [of q] show ?thesis by simp
  qed
  then have dist: "distinct (buf (chans s x))" by (rule count_list_le_1_distinct)
  then have "length (buf (chans s x)) = card (set (buf (chans s x)))"
    by (simp add: distinct_card)
  also have "\<dots> \<le> card {q. q < ncalls s \<and> Done (calls s q) = x}"
  proof (rule card_mono)
    show "finite {q. q < ncalls s \<and> Done (calls s q) = x}" by simp
    show "set (buf (chans s x)) \<subseteq> {q. q < ncalls s \<and> Done (calls s q) = x}"
      using mem by blast
  qed
  finally show ?thesis using dist by simp
qed

text \<open>
  Claim C3, as the source has it.  A delivery of a call is the send
  \<open>call.Done <- call\<close> of \<open>done\<close>.  In every state \<open>s\<close> that a client can
  reach, whatever the order in which its goroutines run:
  \<^item> no call has been delivered more than once, and what has been sent on a channel
    are calls that have been made, each on its own completion channel;
  \<^item> so no more has been sent on a channel than there are calls with that completion
    channel: a send finds room in the buffer, and does not have to wait for a reader
    of the channel, whenever a channel is not given to more calls than its capacity
    (as with the channels that \<open>Go\<close> makes, one of capacity 10 for each call);
  \<^item> as long as fewer than \<open>2 ^ 64 - 1\<close> calls have been made, every call that has
    been made has been delivered once or is still to be delivered: it is in the
    pending table or in the receiver's hands, and the sweep has not run;
  \<^item> so, with fewer than \<open>2 ^ 64 - 1\<close> calls made, once the receiver has finished
    \<open>terminateCalls\<close> every call that has been made has been delivered exactly
    once;
  \<^item> and the goroutines of the client can always run on until the receiver has
    finished \<open>terminateCalls\<close>, with no further call being made.
\<close>

theorem every_call_delivered_once:
  assumes "exec sched (newClientCodec c) = Some s"
  shows "(\<forall>p. deliveries s p \<le> 1) \<and>
    (\<forall>x q. q \<in> set (buf (chans s x)) \<longrightarrow> q < ncalls s \<and> x = Done (calls s q)) \<and>
    (\<forall>x. length (buf (chans s x)) \<le> card {q. q < ncalls s \<and> Done (calls s q) = x}) \<and>
    (ncalls s < 2 ^ 64 - 1 \<longrightarrow>
       (\<forall>p < ncalls s. deliveries s p = 1 \<or>
          (\<not> shutdown s \<and>
           ((\<exists>k. pending s k = Some p) \<or> (\<exists>h. receiver s = Removed h (Some p)))))) \<and>
    (ncalls s < 2 ^ 64 - 1 \<and> receiver s = Terminated \<longrightarrow>
       (\<forall>p < ncalls s. deliveries s p = 1)) \<and>
    (\<exists>sched' s'. exec sched' s = Some s' \<and> receiver s' = Terminated \<and>
       sending s' = Unlocked \<and> ncalls s' = ncalls s)"
proof -
  from accounted_exec [OF assms] have safe: "safe s"
    and acc: "ncalls s < 2 ^ 64 - 1 \<longrightarrow> accounted s" by simp_all
  note d = safeD [OF safe]
  have 1: "\<forall>p. deliveries s p \<le> 1" using d(6) by blast
  have 2: "\<forall>x q. q \<in> set (buf (chans s x)) \<longrightarrow> q < ncalls s \<and> x = Done (calls s q)"
    using d(7) by blast
  have 3: "ncalls s < 2 ^ 64 - 1 \<longrightarrow>
       (\<forall>p < ncalls s. deliveries s p = 1 \<or>
          (\<not> shutdown s \<and>
           ((\<exists>k. pending s k = Some p) \<or> (\<exists>h. receiver s = Removed h (Some p)))))"
    using acc unfolding accounted_def by blast
  have 4: "ncalls s < 2 ^ 64 - 1 \<and> receiver s = Terminated \<longrightarrow>
       (\<forall>p < ncalls s. deliveries s p = 1)"
    using 3 d(8) by blast
  have 5: "\<exists>sched' s'. exec sched' s = Some s' \<and> receiver s' = Terminated \<and>
       sending s' = Unlocked \<and> ncalls s' = ncalls s"
    using finite_pending_exec [OF assms] by (rule client_finishes)
  have 6: "\<forall>x. length (buf (chans s x)) \<le> card {q. q < ncalls s \<and> Done (calls s q) = x}"
    using sends_bounded [OF safe] by blast
  from 1 2 3 4 5 6 show ?thesis by blast
qed

theorem every_call_delivered_once_witness:
  "exec crossed_run (newClientCodec crossed_conn) =
     Some (the (exec crossed_run (newClientCodec crossed_conn))) \<and>
   ncalls (the (exec crossed_run (newClientCodec crossed_conn))) = 2 \<and>
   receiver (the (exec crossed_run (newClientCodec crossed_conn))) = Terminated \<and>
   deliveries (the (exec crossed_run (newClientCodec crossed_conn))) 0 = 1 \<and>
   deliveries (the (exec crossed_run (newClientCodec crossed_conn))) 1 = 1 \<and>
   Reply (calls (the (exec crossed_run (newClientCodec crossed_conn))) 0) = ''rpc resp 1'' \<and>
   Reply (calls (the (exec crossed_run (newClientCodec crossed_conn))) 1) = ''rpc resp 2''"
proof -
  let ?s = "the (exec crossed_run (newClientCodec crossed_conn))"
  have 1: "exec crossed_run (newClientCodec crossed_conn) = Some ?s"
    by (simp add: crossed_run_def crossed_conn_def run_defs)
  have 2: "ncalls ?s = 2" "receiver ?s = Terminated"
    "Reply (calls ?s 0) = ''rpc resp 1''" "Reply (calls ?s 1) = ''rpc resp 2''"
    by (simp_all add: crossed_run_def crossed_conn_def run_defs)
  have 3: "ncalls ?s < 2 ^ 64 - 1" by (simp add: 2)
  from every_call_delivered_once [OF 1] 2(2) 3
  have "\<forall>p < ncalls ?s. deliveries ?s p = 1" by blast
  then have "deliveries ?s 0 = 1" "deliveries ?s 1 = 1" by (simp_all add: 2)
  with 1 2 show ?thesis by blast
qed

lemma exec_snoc:
  assumes "exec xs s = Some s'" and "step a s' = Some s''"
  shows "exec (xs @ [a]) s = Some s''"
  using assms by (simp add: exec_append)

lemma rounds_dom:
  assumes "ready s" and "exec (rounds n) s = Some s'"
  shows "dom (pending s') = dom (pending s) \<union> (\<lambda>i. seq s + of_nat i) ` {..<n}"
  using assms
proof (induction n arbitrary: s)
  case 0
  then show ?case by (simp add: rounds_def)
next
  case (Suc n)
  let ?r = "[GoRegister ''Foo.Sum'' (Str ''req'') '''' None, SendWrite]"
  from round_run [OF Suc.prems(1)] obtain s1 where 1: "exec ?r s = Some s1" "ready s1"
    "seq s1 = seq s + 1" "pending s1 = (pending s)(seq s \<mapsto> ncalls s)"
    by blast
  from Suc.prems(2) 1(1) have "exec (rounds n) s1 = Some s'"
    unfolding rounds_Suc exec_append by simp
  from Suc.IH [OF 1(2) this]
  have "dom (pending s') = dom (pending s1) \<union> (\<lambda>i. seq s1 + of_nat i) ` {..<n}" .
  also have "dom (pending s1) = insert (seq s) (dom (pending s))" by (simp add: 1(4))
  also have "(\<lambda>i. seq s1 + of_nat i) ` {..<n} = (\<lambda>i. seq s + of_nat i) ` Suc ` {..<n}"
    by (simp add: image_image 1(3) ac_simps)
  finally show ?case
    by (simp add: lessThan_Suc_eq_insert_0)
qed

lemma wrap_order_all: "distinct wrap_order \<and> set wrap_order = UNIV"
proof -
  have inj: "inj_on (of_nat :: nat \<Rightarrow> 64 word) (set [0..<2 ^ 64])"
  proof (rule inj_onI)
    fix a b :: nat
    assume "a \<in> set [0..<2 ^ 64]" "b \<in> set [0..<2 ^ 64]"
    then have "a < 2 ^ 64" and "b < 2 ^ 64"
      by (simp_all only: set_upt atLeastLessThan_iff)
    then have a: "a < 2 ^ LENGTH(64)" and b: "b < 2 ^ LENGTH(64)"
      by simp_all
    assume eq: "(of_nat a :: 64 word) = of_nat b"
    from of_nat_inverse [OF eq a] of_nat_inverse [OF refl b] show "a = b" by simp
  qed
  have "distinct [0..<(2 :: nat) ^ 64]" by (rule distinct_upt)
  with inj have d: "distinct wrap_order"
    unfolding wrap_order_def by (simp only: distinct_map simp_thms)
  have "w \<in> set wrap_order" for w :: "64 word"
  proof -
    have "unat w < 2 ^ LENGTH(64)" by (rule unsigned_less)
    then have "0 \<le> unat w \<and> unat w < 2 ^ 64" by simp
    then have "unat w \<in> set [0..<2 ^ 64]"
      by (simp only: set_upt atLeastLessThan_iff)
    then have "of_nat (unat w) \<in> (of_nat :: nat \<Rightarrow> 64 word) ` set [0..<2 ^ 64]"
      by (rule imageI)
    moreover have "(of_nat (unat w) :: 64 word) = w" by simp
    ultimately show ?thesis
      unfolding wrap_order_def by (simp only: set_map)
  qed
  then have "set wrap_order = UNIV" by blast
  with d show ?thesis by blast
qed

lemma wrap_run_loses_first_call:
  "\<exists>s. exec wrap_run (newClientCodec quiet_conn) = Some s \<and> receiver s = Terminated \<and>
     sending s = Unlocked \<and> 0 < ncalls s \<and> deliveries s 0 = 0"
proof -
  let ?s0 = "newClientCodec quiet_conn"
  from rounds_run [OF ready_newClientCodec, of 1] obtain s1 where 1: "exec (rounds 1) ?s0 = Some s1"
    "ready s1" "ncalls s1 = ncalls ?s0 + 1"
    "\<forall>x. buf (chans ?s0 x) = [] \<longrightarrow> buf (chans s1 x) = []"
    "hdr_in (cc s1) = hdr_in (cc ?s0)" "receiver s1 = receiver ?s0" "seq s1 = seq ?s0 + of_nat 1"
    by blast
  from rounds_dom [OF ready_newClientCodec 1(1)] have dom1: "dom (pending s1) = {1}"
    by (simp add: newClientCodec_def lessThan_Suc)
  have sq1: "seq s1 = 2" using 1(7) by (simp add: newClientCodec_def)
  have n1: "ncalls s1 = 1" using 1(3) by (simp add: newClientCodec_def)
  have b1: "buf (chans s1 x) = []" for x using 1(4) by (simp add: newClientCodec_def)
  from rounds_run [OF 1(2), of "2 ^ 64"] obtain s2 where 2: "exec (rounds (2 ^ 64)) s1 = Some s2"
    "ready s2" "ncalls s2 = ncalls s1 + 2 ^ 64"
    "\<forall>x. buf (chans s1 x) = [] \<longrightarrow> buf (chans s2 x) = []"
    "hdr_in (cc s2) = hdr_in (cc s1)" "receiver s2 = receiver s1"
    "\<forall>k q. q < ncalls s1 \<and> pending s2 k = Some q \<longrightarrow>
       pending s1 k = Some q \<and> (\<forall>i < 2 ^ 64. seq s1 + of_nat i \<noteq> k)"
    by blast
  have b2: "buf (chans s2 x) = []" for x using 2(4) b1 by blast
  have lost: "pending s2 k \<noteq> Some 0" for k
  proof
    assume a: "pending s2 k = Some 0"
    with 2(7) n1 have p: "pending s1 k = Some 0" and ne: "\<forall>i < 2 ^ 64. seq s1 + of_nat i \<noteq> k"
      by auto
    from p dom1 have k: "k = 1" by auto
    have "(2 :: nat) ^ 64 - 1 < 2 ^ 64" by simp
    with ne have "seq s1 + of_nat (2 ^ 64 - 1) \<noteq> k" by blast
    moreover have "(2 :: 64 word) + of_nat (2 ^ 64 - 1) = 1"
    proof -
      have "(of_nat (2 ^ 64 - 1) :: 64 word) + 1 = of_nat (Suc (2 ^ 64 - 1))" by simp
      also have "Suc (2 ^ 64 - 1) = (2 :: nat) ^ LENGTH(64)" by simp
      also have "(of_nat (2 ^ LENGTH(64)) :: 64 word) = 0" by (rule of_nat_2p)
      finally have "(of_nat (2 ^ 64 - 1) :: 64 word) = - 1" by (simp add: add_eq_0_iff2)
      then show ?thesis by simp
    qed
    ultimately show False using k sq1 by simp
  qed
  from rounds_dom [OF 1(2) 2(1)] have "(\<lambda>i. seq s1 + of_nat i) ` {..<2 ^ 64} \<subseteq> dom (pending s2)"
    by blast
  moreover have "k \<in> (\<lambda>i. seq s1 + of_nat i) ` {..<2 ^ 64}" for k :: "64 word"
  proof -
    have "unat (k - seq s1) < 2 ^ LENGTH(64)" by (rule unsigned_less)
    then have "unat (k - seq s1) \<in> {..<2 ^ 64}" by simp
    moreover have "k = seq s1 + of_nat (unat (k - seq s1))" by simp
    ultimately show ?thesis by (rule rev_image_eqI)
  qed
  ultimately have dom2: "dom (pending s2) = UNIV" by blast
  have reach2: "exec (rounds 1 @ rounds (2 ^ 64)) ?s0 = Some s2"
    using 1(1) 2(1) by (simp add: exec_append)
  have r2: "receiver s2 = ReadingHeader" "hdr_in (cc s2) = []" "sending s2 = Unlocked"
    using 1(5,6) 2(2,5,6) by (simp_all add: newClientCodec_def quiet_conn_def ready_def)
  let ?s3 = "s2\<lparr>receiver := Exited ''EOF''\<rparr>"
  have st3: "step RecvHeader s2 = Some ?s3"
    using r2 by (simp add: JsonCodec_ReadHeader_def)
  have reach3: "exec ((rounds 1 @ rounds (2 ^ 64)) @ [RecvHeader]) ?s0 = Some ?s3"
    using reach2 st3 by (rule exec_snoc)
  have safe3: "safe ?s3" using reach3 by (rule safe_exec)
  have en: "enumerates wrap_order (pending ?s3)"
    using wrap_order_all dom2 by (simp add: enumerates_def)
  let ?s4 = "(sweep (CodecError ''EOF'') wrap_order (?s3\<lparr>shutdown := True\<rparr>))\<lparr>receiver := Terminated\<rparr>"
  have st4: "step (RecvTerminate wrap_order) ?s3 = Some ?s4"
    using en r2 by (simp add: terminateCalls_def)
  from safe_Terminate [OF safe3 _ _ en refl, of "''EOF''" "CodecError ''EOF''"] r2
  have "deliveries ?s4 0 = deliveries ?s3 0 + (if \<exists>k. pending ?s3 k = Some 0 then 1 else 0)"
    by simp
  moreover have "deliveries ?s3 0 = 0" by (simp add: deliveries_def b2)
  ultimately have d4: "deliveries ?s4 0 = 0" using lost by simp
  have "exec wrap_run ?s0 = Some ?s4"
  proof -
    have "wrap_run = ((rounds 1 @ rounds (2 ^ 64)) @ [RecvHeader]) @ [RecvTerminate wrap_order]"
      by (simp only: wrap_run_def append_assoc append_Cons append_Nil)
    moreover from reach3 st4
    have "exec (((rounds 1 @ rounds (2 ^ 64)) @ [RecvHeader]) @ [RecvTerminate wrap_order]) ?s0 =
      Some ?s4"
      by (rule exec_snoc)
    ultimately show ?thesis by (simp only:)
  qed
  moreover have "receiver ?s4 = Terminated" "sending ?s4 = Unlocked" "0 < ncalls ?s4"
    using r2 2(3) n1 by simp_all
  ultimately show ?thesis using d4 by blast
qed

text \<open>
  The claim says that every call is delivered exactly once.  The sequence counter is a
  \<open>uint64\<close>: in \<open>wrap_run\<close> the last call is registered under the sequence number 1
  of the first call, which is still pending, and takes its place in the table.  The
  run ends with the receiver's sweep done and no goroutine inside \<open>send\<close>, and the
  first call has never been delivered.
\<close>

theorem first_call_lost_counterexample:
  "exec wrap_run (newClientCodec quiet_conn) \<noteq> None \<and>
   receiver (the (exec wrap_run (newClientCodec quiet_conn))) = Terminated \<and>
   sending (the (exec wrap_run (newClientCodec quiet_conn))) = Unlocked \<and>
   0 < ncalls (the (exec wrap_run (newClientCodec quiet_conn))) \<and>
   deliveries (the (exec wrap_run (newClientCodec quiet_conn))) 0 = 0"
proof -
  from wrap_run_loses_first_call obtain s where
    "exec wrap_run (newClientCodec quiet_conn) = Some s" "receiver s = Terminated"
    "sending s = Unlocked" "0 < ncalls s" "deliveries s 0 = 0"
    by blast
  then show ?thesis by simp
qed

end
